theory Spec2Isabelle
  imports Complex_Main
begin

section \<open>Python values, exceptions and built-ins\<close>

text \<open>
  The development embeds \<^verbatim>\<open>machine_learning_client/ml.py\<close>. Python's unbounded
  integers are \<open>int\<close>; Python and numpy floats are idealised as \<open>real\<close> (rounding is not
  modelled), except that numpy's not-a-number, which the program can produce as the mean
  of an empty frame, is kept as a value of its own. Every \<^verbatim>\<open>raise\<close> is a value
  \<open>Inl e\<close> of a sum type.
\<close>

datatype error =
    ValueError
  | IndexError
  | ZeroDivisionError
  | TypeError
  | IOError
  | FileNotFoundError
  | NoCredentialsError
  | ExternalError

text \<open>A loop body that may raise, run over a list: the first exception ends the loop.\<close>

fun for_each :: "('a \<Rightarrow> error + 'b) \<Rightarrow> 'a list \<Rightarrow> error + 'b list" where
  "for_each f [] = Inr []"
| "for_each f (x # xs) =
     (case f x of
        Inl e \<Rightarrow> Inl e
      | Inr v \<Rightarrow> (case for_each f xs of Inl e \<Rightarrow> Inl e | Inr vs \<Rightarrow> Inr (v # vs)))"

text \<open>\<^verbatim>\<open>range(start, stop, step)\<close>: a zero step raises ValueError.\<close>

function range_up :: "int \<Rightarrow> int \<Rightarrow> int \<Rightarrow> int list" where
  "range_up i stop step =
     (if 0 < step \<and> i < stop then i # range_up (i + step) stop step else [])"
  by pat_completeness auto
termination
  by (relation "measure (\<lambda>(i, stop, step). nat (stop - i))") auto

declare range_up.simps [simp del]

function range_down :: "int \<Rightarrow> int \<Rightarrow> int \<Rightarrow> int list" where
  "range_down i stop step =
     (if step < 0 \<and> stop < i then i # range_down (i + step) stop step else [])"
  by pat_completeness auto
termination
  by (relation "measure (\<lambda>(i, stop, step). nat (i - stop))") auto

declare range_down.simps [simp del]

definition py_range :: "int \<Rightarrow> int \<Rightarrow> int \<Rightarrow> error + int list" where
  "py_range start stop step =
     (if step = 0 then Inl ValueError
      else if 0 < step then Inr (range_up start stop step)
      else Inr (range_down start stop step))"

text \<open>
  A slice \<^verbatim>\<open>xs[a:b]\<close>: a negative bound counts from the end, and both bounds are
  clipped to the sequence.
\<close>

definition slice_bound :: "nat \<Rightarrow> int \<Rightarrow> nat" where
  "slice_bound n i = (if i < 0 then nat (max 0 (int n + i)) else min n (nat i))"

definition py_slice :: "'a list \<Rightarrow> int \<Rightarrow> int \<Rightarrow> 'a list" where
  "py_slice xs a b =
     (let lo = slice_bound (length xs) a; hi = slice_bound (length xs) b
      in take (hi - lo) (drop lo xs))"

text \<open>
  Indexing \<^verbatim>\<open>xs[k]\<close> of a list or a numpy array: a negative index counts from the
  end, an index outside \<open>[-n, n)\<close> raises IndexError.
\<close>

definition py_index :: "'a list \<Rightarrow> int \<Rightarrow> error + 'a" where
  "py_index xs k =
     (let n = int (length xs)
      in if 0 \<le> k \<and> k < n then Inr (xs ! nat k)
         else if - n \<le> k \<and> k < 0 then Inr (xs ! nat (n + k))
         else Inl IndexError)"

text \<open>\<^verbatim>\<open>int(x)\<close> of a float truncates towards zero.\<close>

definition int_of_float :: "real \<Rightarrow> int" where
  "int_of_float x = (if 0 \<le> x then \<lfloor>x\<rfloor> else \<lceil>x\<rceil>)"

section \<open>Amplitude envelope\<close>

text \<open>
  \<^verbatim>\<open>np.sqrt(np.mean(frame**2))\<close>. The mean of an empty frame is numpy's nan, here
  \<open>None\<close>; a frame of samples has the value \<open>Some r\<close>.
\<close>

definition rms :: "real list \<Rightarrow> real option" where
  "rms frame =
     (if frame = [] then None
      else Some (sqrt (sum_list (map (\<lambda>v. v\<^sup>2) frame) / real (length frame))))"

definition calculate_amplitude_envelope :: "real list \<Rightarrow> int \<Rightarrow> int \<Rightarrow> error + real option list" where
  "calculate_amplitude_envelope y frame_size hop_length =
     (case py_range 0 (int (length y)) hop_length of
        Inl e \<Rightarrow> Inl e
      | Inr starts \<Rightarrow> Inr (map (\<lambda>i. rms (py_slice y i (i + frame_size))) starts))"

section \<open>Frequencies and note names\<close>

text \<open>
  Two functions of the \<^verbatim>\<open>pretty_midi\<close> library that \<^verbatim>\<open>frequency_to_note_name\<close>
  calls. The library is not part of the repository; they are written here as the library
  defines them: \<^verbatim>\<open>hz_to_note_number(f) = 12 * (log2(f) - log2(440.0)) + 69\<close>, and
  \<^verbatim>\<open>note_number_to_name(n) = semis[n % 12] + str(n // 12 - 1)\<close> for an integer \<open>n\<close>.
\<close>

definition hz_to_note_number :: "real \<Rightarrow> real" where
  "hz_to_note_number frequency = 12 * (log 2 frequency - log 2 440) + 69"

definition semis :: "string list" where
  "semis = [''C'', ''C#'', ''D'', ''D#'', ''E'', ''F'', ''F#'', ''G'', ''G#'', ''A'', ''A#'', ''B'']"

text \<open>\<^verbatim>\<open>str(n)\<close> of an integer: its decimal digits, after a minus sign when negative.\<close>

function str_nat :: "nat \<Rightarrow> string" where
  "str_nat n =
     (if n < 10 then [''0123456789'' ! n]
      else str_nat (n div 10) @ [''0123456789'' ! (n mod 10)])"
  by pat_completeness auto
termination
  by (relation "measure (\<lambda>n. n)") auto

declare str_nat.simps [simp del]

definition str_int :: "int \<Rightarrow> string" where
  "str_int i = (if i < 0 then CHR ''-'' # str_nat (nat (- i)) else str_nat (nat i))"

definition note_number_to_name :: "int \<Rightarrow> error + string" where
  "note_number_to_name note_number =
     (case py_index semis (note_number mod 12) of
        Inl e \<Rightarrow> Inl e
      | Inr s \<Rightarrow> Inr (s @ str_int (note_number div 12 - 1)))"

definition frequency_to_note_name :: "real \<Rightarrow> error + string option" where
  "frequency_to_note_name frequency =
     (if frequency \<le> 0 then Inr None
      else case note_number_to_name (int_of_float (hz_to_note_number frequency)) of
             Inl e \<Rightarrow> Inl e
           | Inr name \<Rightarrow> Inr (Some name))"

section \<open>Pitch frames\<close>

text \<open>
  The dictionaries the pipeline passes around have fixed keys: \<^verbatim>\<open>{"note"}\<close> after
  collapsing, \<^verbatim>\<open>{"time", "note"}\<close> after smoothing, and
  \<^verbatim>\<open>{"time", "note", "confidence"}\<close> from the pitch estimator. A function that reads
  only some keys accepts every record that extends them.
\<close>

record note_entry =
  "note" :: string

record timed_note = note_entry +
  time :: real

record raw_note = timed_note +
  confidence :: real

text \<open>\<^verbatim>\<open>round(c, 2)\<close>: to the nearest hundredth, a tie to the even neighbour.\<close>

definition round_half_even :: "real \<Rightarrow> int" where
  "round_half_even x =
     (let f = \<lfloor>x\<rfloor>; d = x - of_int f
      in if d < 1 / 2 then f else if 1 / 2 < d then f + 1 else if even f then f else f + 1)"

definition py_round2 :: "real \<Rightarrow> real" where
  "py_round2 c = of_int (round_half_even (c * 100)) / 100"

text \<open>
  The inner loop of \<^verbatim>\<open>process_audio_chunks\<close> over the frames \<open>(t, f, c)\<close> that
  \<^verbatim>\<open>crepe.predict\<close> returned for one chunk.
\<close>

fun chunk_frames :: "(real \<times> real \<times> real) list \<Rightarrow> error + raw_note list" where
  "chunk_frames [] = Inr []"
| "chunk_frames ((t, f, c) # frames) =
     (if 74 / 100 \<le> c then
        (case frequency_to_note_name f of
           Inl e \<Rightarrow> Inl e
         | Inr note_name \<Rightarrow>
             (case chunk_frames frames of
                Inl e \<Rightarrow> Inl e
              | Inr rest \<Rightarrow>
                  (case note_name of
                     None \<Rightarrow> Inr rest
                   | Some name \<Rightarrow>
                       if name = [] then Inr rest
                       else Inr (\<lparr>note = name, time = t, confidence = py_round2 c\<rparr> # rest))))
      else chunk_frames frames)"

definition process_audio_chunks ::
  "(real list \<Rightarrow> int \<Rightarrow> error + (real \<times> real \<times> real) list) \<Rightarrow> real list \<Rightarrow> int \<Rightarrow> error + raw_note list" where
  "process_audio_chunks crepe_predict audio sr =
     (case for_each
             (\<lambda>start.
                case crepe_predict (py_slice audio start (start + 1024 * 10)) sr of
                  Inl e \<Rightarrow> Inl e
                | Inr frames \<Rightarrow> chunk_frames frames)
             (range_up 0 (int (length audio)) (1024 * 10)) of
        Inl e \<Rightarrow> Inl e
      | Inr chunks \<Rightarrow> Inr (concat chunks))"

definition sort_notes_data :: "raw_note list \<Rightarrow> raw_note list" where
  "sort_notes_data notes_data = sort_key time notes_data"

section \<open>Pitch stabilizer\<close>

text \<open>
  \<^verbatim>\<open>note_counts\<close> is a dictionary: keys are kept in the order of their first
  insertion, which is the order \<^verbatim>\<open>max(note_counts, key=note_counts.get)\<close> visits them.
\<close>

fun dict_get :: "('k \<times> 'v) list \<Rightarrow> 'k \<Rightarrow> 'v \<Rightarrow> 'v" where
  "dict_get [] k d = d"
| "dict_get ((k', v) # kvs) k d = (if k' = k then v else dict_get kvs k d)"

fun dict_set :: "('k \<times> 'v) list \<Rightarrow> 'k \<Rightarrow> 'v \<Rightarrow> ('k \<times> 'v) list" where
  "dict_set [] k v = [(k, v)]"
| "dict_set ((k', v') # kvs) k v = (if k' = k then (k', v) # kvs else (k', v') # dict_set kvs k v)"

fun count_notes :: "(string \<times> nat) list \<Rightarrow> 'a timed_note_scheme list \<Rightarrow> (string \<times> nat) list" where
  "count_notes note_counts [] = note_counts"
| "count_notes note_counts (n # window) =
     count_notes (dict_set note_counts (note n) (dict_get note_counts (note n) 0 + 1)) window"

text \<open>
  \<^verbatim>\<open>max(keys, key=f)\<close> keeps the first key that reaches the largest value: a later key
  replaces the running best only when its value is strictly larger. An empty dictionary
  raises ValueError.
\<close>

fun max_from :: "('k \<Rightarrow> nat) \<Rightarrow> 'k \<Rightarrow> 'k list \<Rightarrow> 'k" where
  "max_from f best [] = best"
| "max_from f best (k # ks) = max_from f (if f best < f k then k else best) ks"

definition py_max_key :: "('k \<times> nat) list \<Rightarrow> error + 'k" where
  "py_max_key d =
     (case map fst d of
        [] \<Rightarrow> Inl ValueError
      | k # ks \<Rightarrow> Inr (max_from (\<lambda>k. dict_get d k 0) k ks))"

text \<open>The body of the loop of \<^verbatim>\<open>smooth_pitch_data\<close> at index \<open>i\<close>.\<close>

definition smooth_at :: "'a timed_note_scheme list \<Rightarrow> int \<Rightarrow> int \<Rightarrow> error + timed_note" where
  "smooth_at notes_data window_size i =
     (let start = max (i - window_size div 2) 0;
          stop = min (i + window_size div 2 + 1) (int (length notes_data));
          window = py_slice notes_data start stop
      in if length window = 0 then Inl ZeroDivisionError
         else
           let avg_time = sum_list (map time window) / real (length window);
               note_counts = count_notes [] window
           in case py_max_key note_counts of
                Inl e \<Rightarrow> Inl e
              | Inr avg_note \<Rightarrow> Inr \<lparr>note = avg_note, time = avg_time\<rparr>)"

definition smooth_pitch_data :: "'a timed_note_scheme list \<Rightarrow> int \<Rightarrow> error + timed_note list" where
  "smooth_pitch_data notes_data window_size =
     for_each (smooth_at notes_data window_size) (map int [0..<length notes_data])"

text \<open>
  The loop of \<^verbatim>\<open>filter_and_combine_notes\<close>, with its two variables \<open>last_note\<close> and
  \<open>filtered_notes\<close>.
\<close>

fun combine_loop ::
  "'a note_entry_scheme list \<Rightarrow> string option \<Rightarrow> note_entry list \<Rightarrow> string option \<times> note_entry list" where
  "combine_loop [] last_note filtered_notes = (last_note, filtered_notes)"
| "combine_loop (n # notes_data) None filtered_notes =
     combine_loop notes_data (Some (note n)) filtered_notes"
| "combine_loop (n # notes_data) (Some l) filtered_notes =
     (if note n \<noteq> l then combine_loop notes_data (Some (note n)) (filtered_notes @ [\<lparr>note = l\<rparr>])
      else combine_loop notes_data (Some l) filtered_notes)"

definition filter_and_combine_notes :: "'a note_entry_scheme list \<Rightarrow> note_entry list" where
  "filter_and_combine_notes notes_data =
     (case combine_loop notes_data None [] of
        (None, filtered_notes) \<Rightarrow> filtered_notes
      | (Some l, filtered_notes) \<Rightarrow> filtered_notes @ [\<lparr>note = l\<rparr>])"

definition process_notes :: "'a timed_note_scheme list \<Rightarrow> error + note_entry list" where
  "process_notes notes_data =
     (case smooth_pitch_data notes_data 5 of
        Inl e \<Rightarrow> Inl e
      | Inr smoothed_notes \<Rightarrow> Inr (filter_and_combine_notes smoothed_notes))"

section \<open>Rhythm estimator\<close>

text \<open>
  The duration scan reads the envelope by index. To state where it reads, the functions of
  this section return, beside their result, the list of envelope indices they have read, in
  order (the last one is the read that raised, when one did): the first component is a
  record of the run and takes no part in the computation.
\<close>

type_synonym 'a traced = "int list \<times> (error + 'a)"

fun for_each_traced :: "('a \<Rightarrow> 'b traced) \<Rightarrow> 'a list \<Rightarrow> 'b list traced" where
  "for_each_traced f [] = ([], Inr [])"
| "for_each_traced f (x # xs) =
     (case f x of
        (reads, Inl e) \<Rightarrow> (reads, Inl e)
      | (reads, Inr v) \<Rightarrow>
          (case for_each_traced f xs of
             (reads', Inl e) \<Rightarrow> (reads @ reads', Inl e)
           | (reads', Inr vs) \<Rightarrow> (reads @ reads', Inr (v # vs))))"

text \<open>\<^verbatim>\<open>amp_env[k] < threshold\<close>: a comparison with nan is false.\<close>

definition np_less :: "real option \<Rightarrow> real \<Rightarrow> bool" where
  "np_less v threshold = (case v of None \<Rightarrow> False | Some r \<Rightarrow> r < threshold)"

text \<open>
  The inner loop \<^verbatim>\<open>for j in range(start, stop, 512)\<close> with its \<^verbatim>\<open>break\<close>; the value is
  \<open>end_sample\<close>, which is \<open>stop\<close> when the loop runs to its end.
\<close>

function scan_envelope :: "real option list \<Rightarrow> real \<Rightarrow> int \<Rightarrow> int \<Rightarrow> int traced" where
  "scan_envelope amp_env threshold j stop =
     (if j < stop then
        (case py_index amp_env (j div 512) of
           Inl e \<Rightarrow> ([j div 512], Inl e)
         | Inr v \<Rightarrow>
             if np_less v threshold then ([j div 512], Inr j)
             else (case scan_envelope amp_env threshold (j + 512) stop of
                     (reads, r) \<Rightarrow> (j div 512 # reads, r)))
      else ([], Inr stop))"
  by pat_completeness auto
termination
  by (relation "measure (\<lambda>(amp_env, threshold, j, stop). nat (stop - j))") auto

declare scan_envelope.simps [simp del]

text \<open>
  One duration: the scan from \<open>onset_sample\<close>, then
  \<^verbatim>\<open>max((end_sample - onset_sample) / sr, min_duration)\<close> with \<open>min_duration = 0.05\<close>.
\<close>

definition note_duration :: "real option list \<Rightarrow> real \<Rightarrow> int \<Rightarrow> int \<Rightarrow> int \<Rightarrow> real traced" where
  "note_duration amp_env threshold sr onset_sample stop =
     (case scan_envelope amp_env threshold onset_sample stop of
        (reads, Inl e) \<Rightarrow> (reads, Inl e)
      | (reads, Inr end_sample) \<Rightarrow>
          if sr = 0 then (reads, Inl ZeroDivisionError)
          else (reads, Inr (max (of_int (end_sample - onset_sample) / of_int sr) (5 / 100))))"

definition estimate_note_durations_traced :: "real list \<Rightarrow> real list \<Rightarrow> int \<Rightarrow> real \<Rightarrow> real list traced" where
  "estimate_note_durations_traced onsets y sr threshold =
     (case calculate_amplitude_envelope y sr 512 of
        Inl e \<Rightarrow> ([], Inl e)
      | Inr amp_env \<Rightarrow>
          (case for_each_traced
                  (\<lambda>i. note_duration amp_env threshold sr
                          (int_of_float (onsets ! i * of_int sr))
                          (int_of_float (onsets ! (i + 1) * of_int sr)))
                  [0..<length onsets - 1] of
             (reads, Inl e) \<Rightarrow> (reads, Inl e)
           | (reads, Inr durations) \<Rightarrow>
               if 0 < length onsets then
                 (case note_duration amp_env threshold sr
                         (int_of_float (last onsets * of_int sr)) (int (length y)) of
                    (reads', Inl e) \<Rightarrow> (reads @ reads', Inl e)
                  | (reads', Inr duration) \<Rightarrow> (reads @ reads', Inr (durations @ [duration])))
               else (reads, Inr durations)))"

definition estimate_note_durations :: "real list \<Rightarrow> real list \<Rightarrow> int \<Rightarrow> real \<Rightarrow> error + real list" where
  "estimate_note_durations onsets y sr threshold =
     snd (estimate_note_durations_traced onsets y sr threshold)"

definition envelope_reads :: "real list \<Rightarrow> real list \<Rightarrow> int \<Rightarrow> real \<Rightarrow> int list" where
  "envelope_reads onsets y sr threshold =
     fst (estimate_note_durations_traced onsets y sr threshold)"

section \<open>MIDI generation\<close>

text \<open>
  \<^verbatim>\<open>pretty_midi.Note\<close>, \<^verbatim>\<open>pretty_midi.Instrument\<close> and \<^verbatim>\<open>pretty_midi.PrettyMIDI\<close>,
  with the fields the program sets.
\<close>

record midi_note =
  velocity :: int
  pitch :: int
  start :: real
  end_time :: real

record instrument =
  program :: int
  instrument_notes :: "midi_note list"

record midi_data =
  initial_tempo :: real
  instruments :: "instrument list"

text \<open>
  \<^verbatim>\<open>pretty_midi.note_name_to_number\<close> is a parameter: it parses a note name and raises
  ValueError on a name it does not accept. The program of "Acoustic Grand Piano" is 0.
  The loop reads \<open>filtered_notes[i]\<close>, \<open>onsets[i]\<close> and \<open>durations[i]\<close> only for
  \<open>i < min_length\<close>, where all three exist.
\<close>

definition create_midi_instrument ::
  "(string \<Rightarrow> error + int) \<Rightarrow> 'a note_entry_scheme list \<Rightarrow> real list \<Rightarrow> real list \<Rightarrow> error + instrument" where
  "create_midi_instrument name_to_number filtered_notes onsets durations =
     (let min_length = min (length filtered_notes) (min (length onsets) (length durations))
      in case for_each
                (\<lambda>i. case name_to_number (note (filtered_notes ! i)) of
                        Inl e \<Rightarrow> Inl e
                      | Inr note_number \<Rightarrow>
                          let start_time = onsets ! i;
                              end_time = start_time + durations ! i
                          in Inr \<lparr>velocity = 100, pitch = note_number,
                                  start = start_time, end_time = end_time\<rparr>)
                [0..<min_length] of
           Inl e \<Rightarrow> Inl e
         | Inr ns \<Rightarrow> Inr \<lparr>program = 0, instrument_notes = ns\<rparr>)"

section \<open>Collaborators and stored artifacts\<close>

text \<open>
  What the program asks of the outside world is a record of answers, one field per call:
  the request, the libraries (ffmpeg, soundfile, crepe, librosa, pretty_midi), the clock,
  the identifier generator, and the failures the file system, the object store and the
  database can report. An answer \<open>Inl e\<close> (or \<open>Some e\<close> for a call without a value) is
  the call raising \<open>e\<close>.
\<close>

record externals =
  request_audio :: "string option"
  form_user_id :: "string option"
  write_audio :: "error option"
  ffmpeg :: "error + int"
  sf_read :: "error + (real list \<times> int)"
  crepe_predict :: "real list \<Rightarrow> int \<Rightarrow> error + (real \<times> real \<times> real) list"
  librosa_load :: "error + real list"
  onset_detect :: "error + real list"
  beat_track :: "error + real"
  remove_temp :: "error option"
  note_name_to_number :: "string \<Rightarrow> error + int"
  midi_write :: "midi_data \<Rightarrow> error option"
  app_root_path :: string
  cwd :: string
  uuid4 :: string
  s3_upload_error :: "error option"
  object_id :: "string \<Rightarrow> error + string"
  find_user :: "string \<Rightarrow> error + string option option"
  insert_error :: "error option"
  utcnow :: nat

text \<open>
  The MIDI artifacts the program creates or stores: files on the local disk by path, objects
  of the S3 bucket by key, and the documents of the \<^verbatim>\<open>midis\<close> collection.
\<close>

record midi_doc =
  doc_user_id :: string
  doc_username :: string
  doc_midi_url :: string
  created_at :: nat

record world =
  static_files :: "string \<rightharpoonup> midi_data"
  s3_bucket :: "string \<rightharpoonup> midi_data"
  midis :: "midi_doc list"

text \<open>
  \<^verbatim>\<open>create_midi\<close>: the tempo is defaulted, the MIDI object is built with it, the
  instrument is appended and the object is written under the application's static
  directory (directories themselves are not modelled; path components are joined by a
  slash).
\<close>

definition create_midi ::
  "externals \<Rightarrow> world \<Rightarrow> 'a note_entry_scheme list \<Rightarrow> real list \<Rightarrow> real list \<Rightarrow> real \<Rightarrow> string
     \<Rightarrow> (error + string) \<times> world" where
  "create_midi ext w filtered_notes onsets durations tempo output_file =
     (let tempo = (if tempo \<le> 0 then 120 else tempo);
          static_dir = app_root_path ext @ ''/static'';
          midi_file_path = static_dir @ ''/'' @ output_file;
          midi = \<lparr>initial_tempo = tempo, instruments = []\<rparr>
      in case create_midi_instrument (note_name_to_number ext) filtered_notes onsets durations of
           Inl e \<Rightarrow> (Inl e, w)
         | Inr instrument \<Rightarrow>
             let midi = midi\<lparr>instruments := instruments midi @ [instrument]\<rparr>
             in case midi_write ext midi of
                  Some e \<Rightarrow> (Inl e, w)
                | None \<Rightarrow>
                    (Inr output_file,
                     w\<lparr>static_files := (static_files w)(midi_file_path \<mapsto> midi)\<rparr>))"

text \<open>
  \<^verbatim>\<open>create_and_store_midi_in_s3\<close>: the upload reads \<^verbatim>\<open>static/<name>\<close> relative to the
  working directory and raises FileNotFoundError when no file is there; after the upload
  the local file exists and is removed.
\<close>

definition create_and_store_midi_in_s3 ::
  "externals \<Rightarrow> world \<Rightarrow> 'a note_entry_scheme list \<Rightarrow> real list \<Rightarrow> real list \<Rightarrow> real
     \<Rightarrow> (error + string) \<times> world" where
  "create_and_store_midi_in_s3 ext w filtered_notes onsets durations tempo =
     (let midi_filename = ''output_'' @ uuid4 ext @ ''.mid''
      in case create_midi ext w filtered_notes onsets durations tempo midi_filename of
           (Inl e, w1) \<Rightarrow> (Inl e, w1)
         | (Inr created, w1) \<Rightarrow>
             let local_midi_file_path = cwd ext @ ''/static/'' @ midi_filename
             in case static_files w1 local_midi_file_path of
                  None \<Rightarrow> (Inl FileNotFoundError, w1)
                | Some midi \<Rightarrow>
                    (case s3_upload_error ext of
                       Some e \<Rightarrow> (Inl e, w1)
                     | None \<Rightarrow>
                         (Inr (''http://localhost:5001/proxy-midi/'' @ midi_filename),
                          w1\<lparr>s3_bucket := (s3_bucket w1)(midi_filename \<mapsto> midi),
                             static_files := (static_files w1)(local_midi_file_path := None)\<rparr>)))"

section \<open>Database operations\<close>

text \<open>
  \<^verbatim>\<open>find_username\<close> returns the document's username (which may be absent), or the
  empty string when the identifier is of the wrong type or no document is found.
\<close>

definition find_username :: "externals \<Rightarrow> string \<Rightarrow> error + string option" where
  "find_username ext user_id =
     (case object_id ext user_id of
        Inl e \<Rightarrow> if e = TypeError then Inr (Some []) else Inl e
      | Inr user_id_obj \<Rightarrow>
          (case find_user ext user_id_obj of
             Inl e \<Rightarrow> Inl e
           | Inr None \<Rightarrow> Inr (Some [])
           | Inr (Some username) \<Rightarrow> Inr username))"

definition store_in_db :: "externals \<Rightarrow> world \<Rightarrow> string \<Rightarrow> string option \<Rightarrow> string \<Rightarrow> (error + unit) \<times> world" where
  "store_in_db ext w user_id username midi_url =
     (case username of
        None \<Rightarrow> (Inr (), w)
      | Some name \<Rightarrow>
          if name = [] then (Inr (), w)
          else (case insert_error ext of
                  Some e \<Rightarrow> (Inl e, w)
                | None \<Rightarrow>
                    (Inr (),
                     w\<lparr>midis := midis w @
                          [\<lparr>doc_user_id = user_id, doc_username = name,
                            doc_midi_url = midi_url, created_at = utcnow ext\<rparr>]\<rparr>)))"

section \<open>The processing route\<close>

text \<open>
  A response is a JSON body and an HTTP status. \<open>ErrorMessage s\<close> is
  \<^verbatim>\<open>{"error": s}\<close>, \<open>ErrorOf e\<close> is \<^verbatim>\<open>{"error": str(e)}\<close>, \<open>UnexpectedErrorOf e\<close> is
  \<^verbatim>\<open>{"error": "Unexpected error: " + str(e)}\<close>, and \<open>MidiUrl u\<close> is \<^verbatim>\<open>{"midi_url": u}\<close>.
\<close>

datatype body = ErrorMessage string | ErrorOf error | UnexpectedErrorOf error | MidiUrl string

type_synonym response = "body \<times> nat"

definition convert_webm_to_wav :: "externals \<Rightarrow> error + unit" where
  "convert_webm_to_wav ext =
     (case ffmpeg ext of
        Inl e \<Rightarrow> Inl e
      | Inr returncode \<Rightarrow> if returncode \<noteq> 0 then Inl ValueError else Inr ())"

text \<open>
  The three \<^verbatim>\<open>except\<close> clauses of the route, in their order; FileNotFoundError is an
  IOError in Python.
\<close>

definition error_response :: "error \<Rightarrow> response" where
  "error_response e =
     (if e = IOError \<or> e = FileNotFoundError then (ErrorOf e, 500)
      else if e = ValueError then (ErrorOf e, 500)
      else (UnexpectedErrorOf e, 500))"

text \<open>
  The route is \<^verbatim>\<open>process_data\<close>; its \<^verbatim>\<open>try\<close> block is written in three parts, in
  the order of the source. The first part runs from writing the upload to disk to removing
  the temporary files: every step either raises or hands its value to the next, and none
  touches a stored artifact. The sorted notes are only logged, so the notes that go on are
  \<open>notes_data\<close> as the pitch extractor returned them.
\<close>

definition bind_err :: "error + 'a \<Rightarrow> ('a \<Rightarrow> error + 'b) \<Rightarrow> error + 'b" where
  "bind_err m f = (case m of Inl e \<Rightarrow> Inl e | Inr x \<Rightarrow> f x)"

definition raise_if :: "error option \<Rightarrow> error + unit" where
  "raise_if r = (case r of Some e \<Rightarrow> Inl e | None \<Rightarrow> Inr ())"

definition analyse_recording ::
  "externals \<Rightarrow> error + (raw_note list \<times> real list \<times> real list \<times> real)" where
  "analyse_recording ext =
     bind_err (raise_if (write_audio ext)) (\<lambda>written.
     bind_err (convert_webm_to_wav ext) (\<lambda>converted.
     bind_err (sf_read ext) (\<lambda>(audio, sr).
     bind_err (process_audio_chunks (crepe_predict ext) audio sr) (\<lambda>notes_data.
     bind_err (librosa_load ext) (\<lambda>y.
     bind_err (onset_detect ext) (\<lambda>onsets.
     bind_err (estimate_note_durations onsets y 44100 (25 / 1000)) (\<lambda>durations.
     bind_err (beat_track ext) (\<lambda>tempo.
     bind_err (raise_if (remove_temp ext)) (\<lambda>removed.
     Inr (notes_data, onsets, durations, tempo))))))))))"

text \<open>
  The last part: the MIDI file is created and stored, and a reference is kept in the
  database when the form names a user. \<^verbatim>\<open>create_and_store_midi_in_s3\<close> returns a
  string whenever it returns, so the test \<^verbatim>\<open>midi_url is None\<close> after it never holds.
\<close>

definition store_and_respond ::
  "externals \<Rightarrow> world \<Rightarrow> note_entry list \<Rightarrow> real list \<Rightarrow> real list \<Rightarrow> real
     \<Rightarrow> (error + response) \<times> world" where
  "store_and_respond ext w processed_notes onsets durations tempo =
     (case create_and_store_midi_in_s3 ext w processed_notes onsets durations tempo of
        (Inl e, w1) \<Rightarrow> (Inl e, w1)
      | (Inr midi_url, w1) \<Rightarrow>
          (case form_user_id ext of
             None \<Rightarrow> (Inr (MidiUrl midi_url, 200), w1)
           | Some user_id \<Rightarrow>
               if user_id = [] then (Inr (MidiUrl midi_url, 200), w1)
               else (case find_username ext user_id of
                       Inl e \<Rightarrow> (Inl e, w1)
                     | Inr username \<Rightarrow>
                         (case store_in_db ext w1 user_id username midi_url of
                            (Inl e, w2) \<Rightarrow> (Inl e, w2)
                          | (Inr stored, w2) \<Rightarrow> (Inr (MidiUrl midi_url, 200), w2)))))"

text \<open>
  The whole \<^verbatim>\<open>try\<close> block: the request is validated, the recording analysed, the
  notes processed, and the two empty-result checks come before anything is stored.
\<close>

definition no_notes_message :: string where
  "no_notes_message =
     ''No musical notes detected in the audio. Please try recording again with clearer audio.''"

definition no_timing_message :: string where
  "no_timing_message = ''Could not detect timing information. Please try recording again.''"

definition process_request :: "externals \<Rightarrow> world \<Rightarrow> (error + response) \<times> world" where
  "process_request ext w =
     (case request_audio ext of
        None \<Rightarrow> (Inl ValueError, w)
      | Some content_type \<Rightarrow>
          if content_type \<noteq> ''audio/webm'' then
            (Inr (ErrorMessage ''Unsupported Media Type'', 415), w)
          else
            (case analyse_recording ext of
               Inl e \<Rightarrow> (Inl e, w)
             | Inr (notes_data, onsets, durations, tempo) \<Rightarrow>
                 (case process_notes notes_data of
                    Inl e \<Rightarrow> (Inl e, w)
                  | Inr processed_notes \<Rightarrow>
                      if processed_notes = [] then (Inr (ErrorMessage no_notes_message, 400), w)
                      else if length onsets = 0 \<or> length durations = 0 then
                        (Inr (ErrorMessage no_timing_message, 400), w)
                      else store_and_respond ext w processed_notes onsets durations tempo)))"

definition process_data :: "externals \<Rightarrow> world \<Rightarrow> response \<times> world" where
  "process_data ext w =
     (case process_request ext w of
        (Inl e, w') \<Rightarrow> (error_response e, w')
      | (Inr response, w') \<Rightarrow> (response, w'))"

section \<open>The smoothing window, as specified\<close>

text \<open>
  The specification describes smoothing in its own terms; these definitions follow its
  words, to be compared with \<open>smooth_pitch_data\<close>. The window of index \<open>i\<close> for
  \<open>window_size = 5\<close> is the index range \<open>[max(i - 2, 0), min(i + 3, length))\<close>; the mean is
  the arithmetic mean; the majority note is the note with the largest count in the window,
  and among several such notes the one met first.
\<close>

definition spec_window :: "'a list \<Rightarrow> nat \<Rightarrow> 'a list" where
  "spec_window xs i = map (\<lambda>j. xs ! j) [nat (max (int i - 2) 0)..<min (i + 3) (length xs)]"

definition spec_mean :: "real list \<Rightarrow> real" where
  "spec_mean ts = sum_list ts / real (length ts)"

definition spec_majority_note :: "'a list \<Rightarrow> 'a option" where
  "spec_majority_note ns = find (\<lambda>x. \<forall>y\<in>set ns. count_list ns y \<le> count_list ns x) ns"

section \<open>A concrete setting for examples\<close>

text \<open>
  Collaborators that never fail, and a world without artifacts; the examples below change
  the fields they need.
\<close>

definition quiet_externals :: externals where
  "quiet_externals =
     \<lparr>request_audio = Some ''audio/webm'', form_user_id = None, write_audio = None,
      ffmpeg = Inr 0, sf_read = Inr ([], 44100), crepe_predict = (\<lambda>chunk sr. Inr []),
      librosa_load = Inr [], onset_detect = Inr [], beat_track = Inr 0, remove_temp = None,
      note_name_to_number = (\<lambda>name. Inr 60), midi_write = (\<lambda>midi. None),
      app_root_path = ''/app'', cwd = ''/app'', uuid4 = ''u'', s3_upload_error = None,
      object_id = (\<lambda>s. Inr s), find_user = (\<lambda>s. Inr None), insert_error = None, utcnow = 0\<rparr>"

definition empty_world :: world where
  "empty_world = \<lparr>static_files = Map.empty, s3_bucket = Map.empty, midis = []\<rparr>"

section \<open>Properties of the built-ins\<close>

lemma for_each_map:
  "(\<And>x. x \<in> set xs \<Longrightarrow> f x = Inr (g x)) \<Longrightarrow> for_each f xs = Inr (map g xs)"
  by (induction xs) simp_all


lemma for_each_Inr:
  "for_each f xs = Inr ys \<Longrightarrow> length ys = length xs \<and> (\<forall>i<length xs. f (xs ! i) = Inr (ys ! i))"
proof (induction xs arbitrary: ys)
  case Nil
  then show ?case by simp
next
  case (Cons x xs)
  from Cons.prems obtain v vs where v: "f x = Inr v" and vs: "for_each f xs = Inr vs"
    and ys: "ys = v # vs"
    by (auto split: sum.splits)
  from Cons.IH [OF vs] have "length vs = length xs" and "\<forall>i<length xs. f (xs ! i) = Inr (vs ! i)"
    by simp_all
  then show ?case
    using v ys by (simp add: nth_Cons split: nat.split)
qed

lemma length_range_up:
  "0 < step \<Longrightarrow> length (range_up i stop step) = nat ((stop - i + step - 1) div step)"
proof (induction i stop step rule: range_up.induct)
  case (1 i stop step)
  show ?case
  proof (cases "i < stop")
    case True
    have "stop - i + step - 1 = step + (stop - (i + step) + step - 1)"
      by simp
    then have "(stop - i + step - 1) div step = (stop - (i + step) + step - 1) div step + 1"
      using 1(2) by (metis div_add_self1 less_irrefl)
    moreover have "0 \<le> (stop - (i + step) + step - 1) div step"
      using True 1(2) by (simp add: pos_imp_zdiv_nonneg_iff)
    ultimately show ?thesis
      using True 1 by (subst range_up.simps) (simp add: nat_add_distrib)
  next
    case False
    then have "(stop - i + step - 1) div step \<le> 0"
      using 1(2) by (simp add: leI pos_imp_zdiv_pos_iff)
    then show ?thesis
      using False by (subst range_up.simps) simp
  qed
qed

lemma nth_range_up:
  "0 < step \<Longrightarrow> k < length (range_up i stop step) \<Longrightarrow>
   range_up i stop step ! k = i + int k * step"
proof (induction i stop step arbitrary: k rule: range_up.induct)
  case (1 i stop step)
  show ?case
  proof (cases "i < stop")
    case True
    then have eq: "range_up i stop step = i # range_up (i + step) stop step"
      using 1(2) by (subst range_up.simps) simp
    show ?thesis
    proof (cases k)
      case 0
      then show ?thesis using eq by simp
    next
      case (Suc m)
      then have "m < length (range_up (i + step) stop step)"
        using 1(3) eq by simp
      then have "range_up (i + step) stop step ! m = i + step + int m * step"
        using 1(1) [of m] True 1(2) by simp
      then show ?thesis using eq Suc by (simp add: algebra_simps)
    qed
  next
    case False
    then have "range_up i stop step = []"
      by (subst range_up.simps) simp
    then show ?thesis using 1(3) by simp
  qed
qed

lemma range_up_bounds:
  "0 < step \<Longrightarrow> x \<in> set (range_up i stop step) \<Longrightarrow> i \<le> x \<and> x < stop"
proof (induction i stop step rule: range_up.induct)
  case (1 i stop step)
  show ?case
  proof (cases "i < stop")
    case True
    then have "range_up i stop step = i # range_up (i + step) stop step"
      using 1(2) by (subst range_up.simps) simp
    then have "x = i \<or> x \<in> set (range_up (i + step) stop step)"
      using 1(3) by simp
    then show ?thesis
    proof
      assume "x = i"
      then show ?thesis using True by simp
    next
      assume "x \<in> set (range_up (i + step) stop step)"
      then have "i + step \<le> x \<and> x < stop"
        using 1(1) 1(2) True by simp
      then show ?thesis using 1(2) by simp
    qed
  next
    case False
    then have "range_up i stop step = []"
      by (subst range_up.simps) simp
    then show ?thesis using 1(3) by simp
  qed
qed

lemma neg_div_neg: "0 < (h::int) \<Longrightarrow> - (- l div h) = (l + h - 1) div h"
proof -
  assume h: "0 < h"
  define q where "q = (l + h - 1) div h"
  define r where "r = (l + h - 1) mod h"
  have r: "0 \<le> r" "r < h" using h by (simp_all add: r_def)
  have "l + h - 1 = h * q + r" by (simp add: q_def r_def)
  then have "- l = h * (- q) + (h - (r + 1))" by (simp add: algebra_simps)
  then have "- l div h = - q"
    using r int_div_pos_eq [of "- l" h "- q" "h - (r + 1)"] by simp
  then show ?thesis by (simp add: q_def)
qed

lemma ceiling_div:
  "0 < (h::int) \<Longrightarrow> \<lceil>real_of_int l / real_of_int h\<rceil> = (l + h - 1) div h"
  by (simp add: ceiling_divide_eq_div neg_div_neg)

lemma py_slice_window:
  "0 \<le> a \<Longrightarrow> a \<le> b \<Longrightarrow> py_slice xs a b = take (nat b - nat a) (drop (nat a) xs)"
proof -
  assume a: "0 \<le> a" and ab: "a \<le> b"
  have "take (min (length xs) (nat b) - min (length xs) (nat a)) (drop (min (length xs) (nat a)) xs)
        = take (nat b - nat a) (drop (nat a) xs)"
  proof (cases "nat a \<le> length xs")
    case True
    then have "min (length xs) (nat a) = nat a" by simp
    moreover have "take (min (length xs) (nat b) - nat a) (drop (nat a) xs)
        = take (nat b - nat a) (drop (nat a) xs)"
    proof (cases "nat b \<le> length xs")
      case True
      then show ?thesis by simp
    next
      case False
      then show ?thesis by simp
    qed
    ultimately show ?thesis by simp
  next
    case False
    then show ?thesis by simp
  qed
  then show ?thesis
    using a ab by (simp add: py_slice_def slice_bound_def Let_def)
qed

section \<open>Run collapsing\<close>

lemma combine_loop_inv:
  "distinct_adj (map note filtered @ (case last_note of None \<Rightarrow> [] | Some l \<Rightarrow> [l])) \<Longrightarrow>
   (last_note = None \<longrightarrow> filtered = []) \<Longrightarrow>
   combine_loop xs last_note filtered = (l', f') \<Longrightarrow>
   distinct_adj (map note f' @ (case l' of None \<Rightarrow> [] | Some l \<Rightarrow> [l]))"
proof (induction xs last_note filtered rule: combine_loop.induct)
  case (1 last_note filtered_notes)
  then show ?case by auto
next
  case (2 n notes_data filtered_notes)
  then show ?case by auto
next
  case (3 n notes_data l filtered_notes)
  show ?case
  proof (cases "note n = l")
    case True
    then show ?thesis using 3 by auto
  next
    case False
    have "distinct_adj (map note (filtered_notes @ [\<lparr>note = l\<rparr>]) @ [note n])"
      using 3(3) False by (simp add: distinct_adj_append_iff)
    then show ?thesis using 3(1) [OF False] 3(5) False by auto
  qed
qed

lemma distinct_adj_filter_and_combine_notes:
  "distinct_adj (map note (filter_and_combine_notes xs))"
proof -
  obtain l f where lf: "combine_loop xs None [] = (l, f)"
    by (cases "combine_loop xs None []")
  have "distinct_adj (map note f @ (case l of None \<Rightarrow> [] | Some l \<Rightarrow> [l]))"
    using combine_loop_inv [OF _ _ lf] by simp
  then show ?thesis
    using lf by (cases l) (simp_all add: filter_and_combine_notes_def)
qed

lemma combine_loop_same:
  "\<forall>x\<in>set xs. note x = n \<Longrightarrow> combine_loop xs (Some n) f = (Some n, f)"
  by (induction xs) simp_all

lemma filter_and_combine_notes_same:
  "xs \<noteq> [] \<Longrightarrow> \<forall>x\<in>set xs. note x = n \<Longrightarrow> filter_and_combine_notes xs = [\<lparr>note = n\<rparr>]"
  by (cases xs) (simp_all add: filter_and_combine_notes_def combine_loop_same)

lemma combine_loop_distinct_adj:
  "distinct_adj (l # map note xs) \<Longrightarrow>
   combine_loop xs (Some l) f =
     (Some (last (l # map note xs)), f @ map (\<lambda>s. \<lparr>note = s\<rparr>) (butlast (l # map note xs)))"
proof (induction xs arbitrary: l f)
  case Nil
  then show ?case by simp
next
  case (Cons x xs)
  from Cons.prems have ne: "note x \<noteq> l" and d: "distinct_adj (note x # map note xs)"
    by auto
  have "combine_loop (x # xs) (Some l) f = combine_loop xs (Some (note x)) (f @ [\<lparr>note = l\<rparr>])"
    using ne by simp
  also have "\<dots> = (Some (last (note x # map note xs)),
       (f @ [\<lparr>note = l\<rparr>]) @ map (\<lambda>s. \<lparr>note = s\<rparr>) (butlast (note x # map note xs)))"
    by (rule Cons.IH [OF d])
  also have "\<dots> = (Some (last (l # map note (x # xs))),
       f @ map (\<lambda>s. \<lparr>note = s\<rparr>) (butlast (l # map note (x # xs))))"
    by simp
  finally show ?case .
qed

lemma note_entry_eta: "\<lparr>note = note (x :: note_entry)\<rparr> = x"
  by (cases x) simp

lemma filter_and_combine_notes_distinct_adj:
  "distinct_adj (map note xs) \<Longrightarrow> filter_and_combine_notes xs = map (\<lambda>x. \<lparr>note = note x\<rparr>) xs"
proof (cases xs)
  case Nil
  then show ?thesis by (simp add: filter_and_combine_notes_def)
next
  case (Cons x xs')
  assume "distinct_adj (map note xs)"
  then have d: "distinct_adj (note x # map note xs')" using Cons by simp
  have "map (\<lambda>s. \<lparr>note = s\<rparr>) (butlast (note x # map note xs')) @ [\<lparr>note = last (note x # map note xs')\<rparr>]
        = map (\<lambda>s. \<lparr>note = s\<rparr>) (butlast (note x # map note xs') @ [last (note x # map note xs')])"
    by simp
  also have "\<dots> = map (\<lambda>s. \<lparr>note = s\<rparr>) (note x # map note xs')"
    by (subst append_butlast_last_id) simp_all
  finally show ?thesis
    using Cons combine_loop_distinct_adj [OF d, of "[]"]
    by (simp add: filter_and_combine_notes_def comp_def)
qed

text \<open>
  Claim C2. The output of \<open>filter_and_combine_notes\<close> never holds the same note at two
  adjacent positions, for every input. An empty input gives an empty output; a non-empty
  input whose entries all carry one note gives exactly one entry, with that note. Collapsing
  is idempotent: run on its own output it changes nothing.
\<close>

theorem filter_and_combine_notes_no_adjacent_repeat:
  "(\<forall>i. Suc i < length (filter_and_combine_notes xs) \<longrightarrow>
        note (filter_and_combine_notes xs ! i) \<noteq> note (filter_and_combine_notes xs ! Suc i))
   \<and> filter_and_combine_notes ([] :: 'a note_entry_scheme list) = []
   \<and> (xs \<noteq> [] \<and> (\<forall>x\<in>set xs. note x = n) \<longrightarrow> filter_and_combine_notes xs = [\<lparr>note = n\<rparr>])
   \<and> filter_and_combine_notes (filter_and_combine_notes xs) = filter_and_combine_notes xs"
proof (intro conjI allI impI)
  fix i
  assume i: "Suc i < length (filter_and_combine_notes xs)"
  have "distinct_adj (map note (filter_and_combine_notes xs))"
    by (rule distinct_adj_filter_and_combine_notes)
  then have "map note (filter_and_combine_notes xs) ! i \<noteq> map note (filter_and_combine_notes xs) ! Suc i"
    using i by (simp add: distinct_adj_conv_nth)
  then show "note (filter_and_combine_notes xs ! i) \<noteq> note (filter_and_combine_notes xs ! Suc i)"
    using i by simp
next
  show "filter_and_combine_notes ([] :: 'a note_entry_scheme list) = []"
    by (simp add: filter_and_combine_notes_def)
next
  assume "xs \<noteq> [] \<and> (\<forall>x\<in>set xs. note x = n)"
  then show "filter_and_combine_notes xs = [\<lparr>note = n\<rparr>]"
    by (simp add: filter_and_combine_notes_same)
next
  have "filter_and_combine_notes (filter_and_combine_notes xs)
        = map (\<lambda>x. \<lparr>note = note x\<rparr>) (filter_and_combine_notes xs)"
    by (rule filter_and_combine_notes_distinct_adj) (rule distinct_adj_filter_and_combine_notes)
  then show "filter_and_combine_notes (filter_and_combine_notes xs) = filter_and_combine_notes xs"
    by (simp add: note_entry_eta)
qed

theorem filter_and_combine_notes_witness:
  "filter_and_combine_notes
     [\<lparr>note = ''A4'', time = 0\<rparr>, \<lparr>note = ''A4'', time = 1\<rparr>, \<lparr>note = ''B4'', time = 2\<rparr>, \<lparr>note = ''A4'', time = 3\<rparr>]
     = [\<lparr>note = ''A4''\<rparr>, \<lparr>note = ''B4''\<rparr>, \<lparr>note = ''A4''\<rparr>]
   \<and> filter_and_combine_notes [\<lparr>note = ''C4'', time = 0\<rparr>, \<lparr>note = ''C4'', time = 1\<rparr>] = [\<lparr>note = ''C4''\<rparr>]"
  using filter_and_combine_notes_no_adjacent_repeat
    [of "[\<lparr>note = ''C4'', time = 0\<rparr>, \<lparr>note = ''C4'', time = 1\<rparr>]" "''C4''"]
  by (simp add: filter_and_combine_notes_def)

section \<open>Frequency to note name\<close>

lemma note_number_to_name_total:
  "note_number_to_name n = Inr (semis ! nat (n mod 12) @ str_int (n div 12 - 1))"
proof -
  have "0 \<le> n mod 12" "n mod 12 < 12" by simp_all
  then have "py_index semis (n mod 12) = Inr (semis ! nat (n mod 12))"
    by (simp add: py_index_def semis_def)
  then show ?thesis by (simp add: note_number_to_name_def)
qed

lemma semis_nonempty: "k < 12 \<Longrightarrow> semis ! k \<noteq> []"
proof -
  assume "k < 12"
  then have "semis ! k \<in> set semis"
    by (intro nth_mem) (simp add: semis_def)
  moreover have "\<forall>s\<in>set semis. s \<noteq> []"
    by (simp add: semis_def)
  ultimately show ?thesis by blast
qed

lemma note_number_to_name_69: "note_number_to_name 69 = Inr ''A4''"
  by (simp add: note_number_to_name_total semis_def str_int_def str_nat.simps)

text \<open>
  Claim C8. A frequency that is zero or negative has no note: \<open>frequency_to_note_name\<close>
  returns \<open>None\<close>. The reference frequency 440 Hz is named A4 exactly. For every positive
  frequency the function returns a note name, and the name is not empty; it never raises.
\<close>

theorem frequency_to_note_name_total:
  "(f \<le> 0 \<longrightarrow> frequency_to_note_name f = Inr None)
   \<and> frequency_to_note_name 440 = Inr (Some ''A4'')
   \<and> (0 < f \<longrightarrow> (\<exists>name. frequency_to_note_name f = Inr (Some name) \<and> name \<noteq> []))"
proof (intro conjI impI)
  assume "f \<le> 0"
  then show "frequency_to_note_name f = Inr None"
    by (simp add: frequency_to_note_name_def)
next
  have "int_of_float (hz_to_note_number 440) = 69"
    by (simp add: hz_to_note_number_def int_of_float_def)
  then show "frequency_to_note_name 440 = Inr (Some ''A4'')"
    by (simp add: frequency_to_note_name_def note_number_to_name_69)
next
  assume pos: "0 < f"
  define n where "n = int_of_float (hz_to_note_number f)"
  have "nat (n mod 12) < 12" by simp
  then have "semis ! nat (n mod 12) \<noteq> []" by (rule semis_nonempty)
  then show "\<exists>name. frequency_to_note_name f = Inr (Some name) \<and> name \<noteq> []"
    using pos by (simp add: frequency_to_note_name_def note_number_to_name_total n_def)
qed

theorem frequency_to_note_name_witness:
  "frequency_to_note_name (- 1) = Inr None
   \<and> (\<exists>name. frequency_to_note_name 440 = Inr (Some name) \<and> name \<noteq> [])"
  using frequency_to_note_name_total [of "- 1"] frequency_to_note_name_total [of 440]
  by simp

section \<open>Amplitude envelope length\<close>

lemma frame_window:
  assumes "0 \<le> frame_size" "0 < hop_length"
  shows "py_slice y (int k * hop_length) (int k * hop_length + frame_size)
           = take (nat frame_size) (drop (k * nat hop_length) y)"
proof -
  have a: "0 \<le> int k * hop_length" using assms by simp
  have n: "nat (int k * hop_length) = k * nat hop_length"
    using assms by (simp add: nat_mult_distrib)
  have "nat (int k * hop_length + frame_size) - nat (int k * hop_length) = nat frame_size"
    using assms a by (simp add: nat_add_distrib)
  then show ?thesis
    using py_slice_window [of "int k * hop_length" "int k * hop_length + frame_size" y] a assms n
    by simp
qed

text \<open>
  Claim C6. For a hop length \<open>H > 0\<close> the envelope of a waveform of length \<open>L\<close> has exactly
  \<open>ceil(L / H)\<close> values, and the function does not raise. The value at position \<open>k\<close> is
  the root mean square of the slice \<^verbatim>\<open>y[k*H : k*H + F]\<close>; for a frame size \<open>F \<ge> 0\<close> that
  slice is the window \<open>[k * H, k * H + F)\<close> clipped to the waveform, which for \<open>F > 0\<close> is
  never empty. An empty waveform gives an empty envelope.
\<close>

theorem calculate_amplitude_envelope_length:
  assumes "0 < hop_length"
  shows "\<exists>env. calculate_amplitude_envelope y frame_size hop_length = Inr env
           \<and> int (length env) = \<lceil>real (length y) / real_of_int hop_length\<rceil>
           \<and> (\<forall>k<length env.
                 env ! k = rms (py_slice y (int k * hop_length) (int k * hop_length + frame_size)))
           \<and> (0 \<le> frame_size \<longrightarrow>
                (\<forall>k<length env. env ! k = rms (take (nat frame_size) (drop (k * nat hop_length) y))))
           \<and> (0 < frame_size \<longrightarrow>
                (\<forall>k<length env.
                   take (nat frame_size) (drop (k * nat hop_length) y) \<noteq> []
                   \<and> env ! k =
                       Some (sqrt (sum_list (map (\<lambda>v. v\<^sup>2) (take (nat frame_size) (drop (k * nat hop_length) y)))
                                   / real (length (take (nat frame_size) (drop (k * nat hop_length) y)))))))
           \<and> (y = [] \<longrightarrow> env = [])"
proof -
  define starts where "starts = range_up 0 (int (length y)) hop_length"
  define env where "env = map (\<lambda>i. rms (py_slice y i (i + frame_size))) starts"
  have res: "calculate_amplitude_envelope y frame_size hop_length = Inr env"
    using assms by (simp add: calculate_amplitude_envelope_def py_range_def env_def starts_def)
  have len: "length env = nat ((int (length y) + hop_length - 1) div hop_length)"
    using assms by (simp add: env_def starts_def length_range_up)
  have nonneg: "0 \<le> (int (length y) + hop_length - 1) div hop_length"
    using assms by (simp add: pos_imp_zdiv_nonneg_iff)
  have ceil: "int (length env) = \<lceil>real (length y) / real_of_int hop_length\<rceil>"
    using len nonneg ceiling_div [OF assms, of "int (length y)"] by simp
  have nth: "env ! k = rms (py_slice y (int k * hop_length) (int k * hop_length + frame_size))"
    if "k < length env" for k
    using that assms nth_range_up [of hop_length k 0 "int (length y)"]
    by (simp add: env_def starts_def)
  have inside: "k * nat hop_length < length y" if "k < length env" for k
  proof -
    have "starts ! k \<in> set starts" using that by (simp add: env_def)
    then have "starts ! k < int (length y)"
      using range_up_bounds [OF assms, of "starts ! k" 0 "int (length y)"] by (simp add: starts_def)
    moreover have "starts ! k = int k * hop_length"
      using that assms nth_range_up [of hop_length k 0 "int (length y)"]
      by (simp add: env_def starts_def)
    ultimately have "int k * hop_length < int (length y)" by simp
    moreover have "int (k * nat hop_length) = int k * hop_length"
      using assms by simp
    ultimately show ?thesis by linarith
  qed
  have vals: "env ! k = rms (take (nat frame_size) (drop (k * nat hop_length) y))"
    if "k < length env" "0 \<le> frame_size" for k
    using that nth [of k] frame_window [OF that(2) assms, of y k] by simp
  have nonempty: "take (nat frame_size) (drop (k * nat hop_length) y) \<noteq> []"
    if "k < length env" "0 < frame_size" for k
    using inside [OF that(1)] that(2) by simp
  have empty: "env = []" if "y = []"
    using that assms by (simp add: env_def starts_def range_up.simps)
  show ?thesis
  proof (intro exI [of _ env] conjI impI allI)
    show "calculate_amplitude_envelope y frame_size hop_length = Inr env" by (rule res)
    show "int (length env) = \<lceil>real (length y) / real_of_int hop_length\<rceil>" by (rule ceil)
    show "env ! k = rms (py_slice y (int k * hop_length) (int k * hop_length + frame_size))"
      if "k < length env" for k
      using that by (rule nth)
    show "env ! k = rms (take (nat frame_size) (drop (k * nat hop_length) y))"
      if "0 \<le> frame_size" "k < length env" for k
      using that vals by simp
    show "take (nat frame_size) (drop (k * nat hop_length) y) \<noteq> []"
      if "0 < frame_size" "k < length env" for k
      using that nonempty by simp
    show "env ! k =
        Some (sqrt (sum_list (map (\<lambda>v. v\<^sup>2) (take (nat frame_size) (drop (k * nat hop_length) y)))
                    / real (length (take (nat frame_size) (drop (k * nat hop_length) y)))))"
      if "0 < frame_size" "k < length env" for k
      using vals [of k] nonempty [of k] that unfolding rms_def by simp
    show "env = []" if "y = []" using that by (rule empty)
  qed
qed

theorem calculate_amplitude_envelope_witness:
  "calculate_amplitude_envelope [3, 4, 0, 0, 5] 2 2 = Inr [Some (sqrt (25 / 2)), Some 0, Some 5]
   \<and> \<lceil>real (length [3, 4, 0, 0, 5 :: real]) / real_of_int 2\<rceil> = 3"
proof -
  have e: "range_up 0 5 2 = [0, 2, 4]"
    by (simp add: range_up.simps)
  show ?thesis
    using calculate_amplitude_envelope_length [of 2 "[3, 4, 0, 0, 5]" 2]
    by (simp add: calculate_amplitude_envelope_def py_range_def e py_slice_def slice_bound_def rms_def)
qed

section \<open>Note-timing reconciliation\<close>




section \<open>Tempo defaulting\<close>

text \<open>
  Claim C7. \<open>create_midi\<close> replaces a tempo that is zero or negative by exactly 120 before it
  builds the MIDI object, and leaves a positive tempo as it is: a call with a tempo
  \<open>\<le> 0\<close> is the call with tempo 120, and whenever a file is written, it is written
  under the static directory with initial tempo 120 for a tempo \<open>\<le> 0\<close> and with the given
  tempo otherwise. The file is written whenever the instrument can be built and the
  serializer does not fail.
\<close>

theorem create_midi_tempo_default:
  fixes filtered_notes :: "'a note_entry_scheme list"
  shows "(tempo \<le> 0 \<longrightarrow>
            create_midi ext w filtered_notes onsets durations tempo output_file
            = create_midi ext w filtered_notes onsets durations 120 output_file)
         \<and> (\<forall>out w'. create_midi ext w filtered_notes onsets durations tempo output_file = (Inr out, w') \<longrightarrow>
              out = output_file
              \<and> (\<exists>midi. static_files w' (app_root_path ext @ ''/static/'' @ output_file) = Some midi
                    \<and> initial_tempo midi = (if tempo \<le> 0 then 120 else tempo)))
         \<and> (\<forall>ins. create_midi_instrument (note_name_to_number ext) filtered_notes onsets durations = Inr ins
                   \<and> midi_write ext \<lparr>initial_tempo = (if tempo \<le> 0 then 120 else tempo), instruments = [ins]\<rparr> = None
               \<longrightarrow> (\<exists>w'. create_midi ext w filtered_notes onsets durations tempo output_file
                          = (Inr output_file, w')))"
proof (intro conjI impI allI)
  assume "tempo \<le> 0"
  then show "create_midi ext w filtered_notes onsets durations tempo output_file
            = create_midi ext w filtered_notes onsets durations 120 output_file"
    by (simp add: create_midi_def)
next
  fix out w'
  assume r: "create_midi ext w filtered_notes onsets durations tempo output_file = (Inr out, w')"
  then show "out = output_file"
    by (auto simp: create_midi_def Let_def split: sum.splits option.splits)
  from r show "\<exists>midi. static_files w' (app_root_path ext @ ''/static/'' @ output_file) = Some midi
                    \<and> initial_tempo midi = (if tempo \<le> 0 then 120 else tempo)"
    by (auto simp: create_midi_def Let_def split: sum.splits option.splits)
next
  fix ins
  assume "create_midi_instrument (note_name_to_number ext) filtered_notes onsets durations = Inr ins
          \<and> midi_write ext \<lparr>initial_tempo = (if tempo \<le> 0 then 120 else tempo), instruments = [ins]\<rparr> = None"
  then show "\<exists>w'. create_midi ext w filtered_notes onsets durations tempo output_file
                          = (Inr output_file, w')"
    by (simp add: create_midi_def Let_def)
qed

theorem create_midi_tempo_default_witness:
  "(\<exists>midi w'. create_midi quiet_externals empty_world [\<lparr>note = ''C4''\<rparr>] [0] [1] (- 3) ''output.mid''
        = (Inr ''output.mid'', w')
      \<and> static_files w' ''/app/static/output.mid'' = Some midi \<and> initial_tempo midi = 120)
   \<and> (\<exists>midi w'. create_midi quiet_externals empty_world [\<lparr>note = ''C4''\<rparr>] [0] [1] 90 ''output.mid''
        = (Inr ''output.mid'', w')
      \<and> static_files w' ''/app/static/output.mid'' = Some midi \<and> initial_tempo midi = 90)"
  using create_midi_tempo_default
      [of "- 3" quiet_externals empty_world "[\<lparr>note = ''C4''\<rparr>]" "[0]" "[1]" "''output.mid''"]
  by (simp add: create_midi_def create_midi_instrument_def quiet_externals_def empty_world_def)

section \<open>Smoothing\<close>

lemma keys_dict_set:
  "map fst (dict_set d k v) = (if k \<in> set (map fst d) then map fst d else map fst d @ [k])"
proof (induction d)
  case Nil
  show ?case by simp
next
  case (Cons p d)
  obtain k' v' where p: "p = (k', v')" by (cases p)
  show ?case
  proof (cases "k' = k")
    case True
    then show ?thesis using p by simp
  next
    case False
    then have "k \<in> set (map fst (p # d)) \<longleftrightarrow> k \<in> set (map fst d)"
      using p by auto
    then show ?thesis using Cons.IH False p by simp
  qed
qed

lemma dict_get_dict_set:
  "dict_get (dict_set d k v) k' z = (if k' = k then v else dict_get d k' z)"
  by (induction d) auto

lemma count_notes_append:
  "count_notes d (w1 @ w2) = count_notes (count_notes d w1) w2"
  by (induction w1 arbitrary: d) simp_all

lemma keys_count_notes_prefix:
  "\<exists>extra. map fst (count_notes d w) = map fst d @ extra"
proof (induction w arbitrary: d)
  case Nil
  then show ?case by simp
next
  case (Cons n w)
  obtain extra where
    "map fst (count_notes (dict_set d (note n) (dict_get d (note n) 0 + 1)) w)
       = map fst (dict_set d (note n) (dict_get d (note n) 0 + 1)) @ extra"
    using Cons.IH by blast
  then show ?case
    by (auto simp: keys_dict_set split: if_splits)
qed

lemma set_keys_count_notes:
  "set (map fst (count_notes d w)) = set (map fst d) \<union> note ` set w"
proof (induction w arbitrary: d)
  case Nil
  then show ?case by simp
next
  case (Cons n w)
  have "set (map fst (dict_set d (note n) (dict_get d (note n) 0 + 1))) = insert (note n) (set (map fst d))"
    by (auto simp: keys_dict_set)
  then show ?case
    using Cons.IH [of "dict_set d (note n) (dict_get d (note n) 0 + 1)"] by simp
qed

lemma dict_get_count_notes:
  "dict_get (count_notes d w) k 0 = dict_get d k 0 + count_list (map note w) k"
proof (induction w arbitrary: d)
  case Nil
  then show ?case by simp
next
  case (Cons n w)
  show ?case
    using Cons.IH [of "dict_set d (note n) (dict_get d (note n) 0 + 1)"]
    by (simp add: dict_get_dict_set)
qed

lemma max_from_split:
  "\<exists>pre post. best # ks = pre @ max_from f best ks # post
     \<and> (\<forall>x\<in>set pre. f x < f (max_from f best ks))
     \<and> (\<forall>x\<in>set post. f x \<le> f (max_from f best ks))"
proof (induction ks arbitrary: best)
  case Nil
  have "[best] = [] @ best # [] \<and> (\<forall>x\<in>set []. f x < f best) \<and> (\<forall>x\<in>set []. f x \<le> f best)"
    by simp
  then show ?case unfolding max_from.simps by blast
next
  case (Cons k ks)
  show ?case
  proof (cases "f best < f k")
    case True
    define m where "m = max_from f k ks"
    from Cons.IH [of k] obtain pre post where
      s: "k # ks = pre @ m # post" and lt: "\<forall>x\<in>set pre. f x < f m" and le: "\<forall>x\<in>set post. f x \<le> f m"
      unfolding m_def by blast
    have "f k \<le> f m"
    proof (cases pre)
      case Nil
      then show ?thesis using s by simp
    next
      case (Cons p pre')
      then have "k \<in> set pre" using s by simp
      then show ?thesis using lt by (simp add: less_imp_le)
    qed
    then have "f best < f m" using True by simp
    then have "best # k # ks = (best # pre) @ m # post \<and> (\<forall>x\<in>set (best # pre). f x < f m)
        \<and> (\<forall>x\<in>set post. f x \<le> f m)"
      using s lt le by simp
    moreover have "max_from f best (k # ks) = m"
      using True by (simp add: m_def)
    ultimately show ?thesis by blast
  next
    case False
    define m where "m = max_from f best ks"
    from Cons.IH [of best] obtain pre post where
      s: "best # ks = pre @ m # post" and lt: "\<forall>x\<in>set pre. f x < f m" and le: "\<forall>x\<in>set post. f x \<le> f m"
      unfolding m_def by blast
    have mm: "max_from f best (k # ks) = m"
      using False by (simp add: m_def)
    show ?thesis
    proof (cases pre)
      case Nil
      then have "best = m" "ks = post" using s by simp_all
      then have "best # k # ks = [] @ m # (k # post) \<and> (\<forall>x\<in>set []. f x < f m)
          \<and> (\<forall>x\<in>set (k # post). f x \<le> f m)"
        using False le by auto
      then show ?thesis unfolding mm by blast
    next
      case (Cons p pre')
      then have p: "p = best" and ks: "ks = pre' @ m # post" using s by simp_all
      have "f best < f m" using lt Cons p by simp
      then have "f k < f m" using False by simp
      then have "best # k # ks = (best # k # pre') @ m # post
          \<and> (\<forall>x\<in>set (best # k # pre'). f x < f m) \<and> (\<forall>x\<in>set post. f x \<le> f m)"
        using ks lt le Cons p by simp
      then show ?thesis unfolding mm by blast
    qed
  qed
qed
lemma find_first:
  "(\<forall>y\<in>set ys. \<not> P y) \<Longrightarrow> P m \<Longrightarrow> find P (ys @ m # zs) = Some m"
  by (induction ys) simp_all

lemma majority_of_window:
  fixes w :: "'a timed_note_scheme list"
  assumes "w \<noteq> []"
  shows "\<exists>m. py_max_key (count_notes [] w) = Inr m \<and> spec_majority_note (map note w) = Some m"
proof -
  define D where "D = count_notes [] w"
  define ns where "ns = map note w"
  define c where "c = (\<lambda>k. dict_get D k 0)"
  have c: "c k = count_list ns k" for k
    using dict_get_count_notes [of "[]" w k] by (simp add: c_def D_def ns_def)
  have keys: "set (map fst D) = set ns"
    using set_keys_count_notes [of "[]" w] by (simp add: D_def ns_def)
  have "ns \<noteq> []" using assms by (simp add: ns_def)
  have "map fst D \<noteq> []"
  proof
    assume "map fst D = []"
    then have "set ns = {}" using keys by simp
    then show False using \<open>ns \<noteq> []\<close> by simp
  qed
  then obtain k0 ks where K: "map fst D = k0 # ks" by (cases "map fst D") simp_all
  define m where "m = max_from c k0 ks"
  have res: "py_max_key D = Inr m"
    using K by (simp add: py_max_key_def m_def c_def)
  from max_from_split [of k0 ks c] obtain pre post where
    split: "k0 # ks = pre @ m # post" and lt: "\<forall>x\<in>set pre. c x < c m"
    and le: "\<forall>x\<in>set post. c x \<le> c m"
    unfolding m_def by blast
  have "m \<in> set (map fst D)" using K split by simp
  then have m_in: "m \<in> set ns" using keys by simp
  have max: "\<forall>y\<in>set ns. count_list ns y \<le> count_list ns m"
  proof
    fix y assume "y \<in> set ns"
    then have "y \<in> set (pre @ m # post)" using keys K split by simp
    then have "c y \<le> c m" using lt le by (auto simp: less_imp_le)
    then show "count_list ns y \<le> count_list ns m" by (simp add: c)
  qed
  from split_list_first [OF m_in] obtain ys zs where
    ns_split: "ns = ys @ m # zs" and first: "m \<notin> set ys"
    by blast
  have "map note w = ys @ (m # zs)" using ns_split by (simp add: ns_def)
  then obtain w1 w2 where w: "w = w1 @ w2" and w1: "map note w1 = ys"
    unfolding map_eq_append_conv by blast
  define K1 where "K1 = map fst (count_notes [] w1)"
  have "set ys = note ` set w1" using w1 by auto
  then have K1_set: "set K1 = set ys"
    using set_keys_count_notes [of "[]" w1] by (simp add: K1_def)
  obtain extra where "map fst (count_notes (count_notes [] w1) w2) = K1 @ extra"
    using keys_count_notes_prefix [of "count_notes [] w1" w2] unfolding K1_def by blast
  then have "pre @ m # post = K1 @ extra"
    using split K w by (simp add: D_def count_notes_append)
  then consider us where "pre = K1 @ us" | us where "pre @ us = K1" "m # post = us @ extra"
    unfolding append_eq_append_conv2 by blast
  then have "set K1 \<subseteq> set pre"
  proof cases
    case 1
    then show ?thesis by auto
  next
    case 2
    show ?thesis
    proof (cases us)
      case Nil
      then show ?thesis using 2 by simp
    next
      case (Cons u us')
      then have "m \<in> set K1" using 2 by auto
      then show ?thesis using first K1_set by simp
    qed
  qed
  then have "\<forall>y\<in>set ys. c y < c m" using lt K1_set by auto
  then have before: "\<forall>y\<in>set ys. \<not> (\<forall>z\<in>set ns. count_list ns z \<le> count_list ns y)"
    using m_in by (auto simp: c not_le)
  have "find (\<lambda>x. \<forall>y\<in>set ns. count_list ns y \<le> count_list ns x) (ys @ m # zs) = Some m"
    using before max by (rule find_first)
  then have "spec_majority_note ns = Some m"
    using ns_split by (simp add: spec_majority_note_def)
  then show ?thesis using res by (auto simp: D_def ns_def)
qed

lemma take_drop_upt:
  assumes "hi \<le> length xs"
  shows "take (hi - lo) (drop lo xs) = map (\<lambda>j. xs ! j) [lo..<hi]"
proof (rule nth_equalityI)
  have "hi - lo \<le> length xs - lo" using assms by linarith
  then show "length (take (hi - lo) (drop lo xs)) = length (map (\<lambda>j. xs ! j) [lo..<hi])"
    by simp
next
  fix k
  assume "k < length (take (hi - lo) (drop lo xs))"
  then have k: "k < hi - lo" by simp
  then have "lo + k < length xs" using assms by linarith
  then show "take (hi - lo) (drop lo xs) ! k = map (\<lambda>j. xs ! j) [lo..<hi] ! k"
    using k by simp
qed

lemma smooth_at_window:
  fixes xs :: "'a timed_note_scheme list"
  assumes "i < length xs"
  shows "py_slice xs (max (int i - 5 div 2) 0) (min (int i + 5 div 2 + 1) (int (length xs)))
           = spec_window xs i
         \<and> spec_window xs i \<noteq> []"
proof -
  define a where "a = max (int i - 5 div 2) 0"
  define b where "b = min (int i + 5 div 2 + 1) (int (length xs))"
  have a: "0 \<le> a" "a \<le> int i" by (simp_all add: a_def)
  have b: "int i < b" "b \<le> int (length xs)" using assms by (simp_all add: b_def)
  have na: "nat a = nat (max (int i - 2) 0)" by (simp add: a_def)
  have nb: "nat b = min (i + 3) (length xs)" by (simp add: b_def)
  have sw: "spec_window xs i = map (\<lambda>j. xs ! j) [nat a..<nat b]"
    unfolding spec_window_def na nb by (rule refl)
  have "0 \<le> a" "a \<le> b" using a b by simp_all
  then have "py_slice xs a b = take (nat b - nat a) (drop (nat a) xs)"
    by (rule py_slice_window)
  also have "\<dots> = map (\<lambda>j. xs ! j) [nat a..<nat b]"
    using b by (intro take_drop_upt) simp
  finally have e1: "py_slice xs a b = spec_window xs i"
    using sw by simp
  have lt: "nat a < nat b" using a b by linarith
  have e2: "spec_window xs i \<noteq> []"
  proof
    assume "spec_window xs i = []"
    then have "map (\<lambda>j. xs ! j) [nat a..<nat b] = []" using sw by simp
    then have "nat b = 0 \<or> nat b \<le> nat a" by (simp only: map_is_Nil_conv upt_eq_Nil_conv)
    with lt show False by linarith
  qed
  show ?thesis using e1 e2 unfolding a_def b_def by blast
qed

lemma smooth_at_spec:
  fixes xs :: "'a timed_note_scheme list"
  assumes "i < length xs"
  shows "\<exists>v. smooth_at xs 5 (int i) = Inr v
           \<and> time v = spec_mean (map time (spec_window xs i))
           \<and> spec_majority_note (map note (spec_window xs i)) = Some (note v)"
proof -
  from smooth_at_window [OF assms]
  have win: "py_slice xs (max (int i - 5 div 2) 0) (min (int i + 5 div 2 + 1) (int (length xs)))
           = spec_window xs i" and ne: "spec_window xs i \<noteq> []"
    by simp_all
  from majority_of_window [OF ne] obtain m where
    m: "py_max_key (count_notes [] (spec_window xs i)) = Inr m"
    and maj: "spec_majority_note (map note (spec_window xs i)) = Some m"
    by blast
  have "smooth_at xs 5 (int i)
      = Inr \<lparr>note = m, time = sum_list (map time (spec_window xs i)) / real (length (spec_window xs i))\<rparr>"
    unfolding smooth_at_def Let_def win using ne m by simp
  then show ?thesis using maj by (simp add: spec_mean_def)
qed

text \<open>
  Claim C3. With \<open>window_size = 5\<close>, \<open>smooth_pitch_data\<close> returns (it does not raise) a
  sequence as long as its input. The output time at index \<open>i\<close> is the arithmetic mean of the
  input times over the window \<open>[max(i - 2, 0), min(i + 3, length))\<close>, and the output note is
  the majority note of that window, the first met among notes of equal largest count. The
  window is clipped at both ends of the sequence.
\<close>

theorem smooth_pitch_data_window:
  fixes xs :: "'a timed_note_scheme list"
  shows "\<exists>ys. smooth_pitch_data xs 5 = Inr ys
           \<and> length ys = length xs
           \<and> (\<forall>i<length xs.
                 time (ys ! i) = spec_mean (map time (spec_window xs i))
                 \<and> spec_majority_note (map note (spec_window xs i)) = Some (note (ys ! i)))"
proof -
  define g where "g = (\<lambda>x. projr (smooth_at xs 5 x))"
  have ok: "smooth_at xs 5 x = Inr (g x)" if "x \<in> set (map int [0..<length xs])" for x
  proof -
    from that obtain i where i: "i < length xs" and x: "x = int i" by auto
    from smooth_at_spec [OF i] obtain v where "smooth_at xs 5 (int i) = Inr v" by blast
    then show ?thesis by (simp add: g_def x)
  qed
  have res: "smooth_pitch_data xs 5 = Inr (map g (map int [0..<length xs]))"
    unfolding smooth_pitch_data_def using ok by (rule for_each_map)
  have props: "time (map g (map int [0..<length xs]) ! i) = spec_mean (map time (spec_window xs i))
      \<and> spec_majority_note (map note (spec_window xs i)) = Some (note (map g (map int [0..<length xs]) ! i))"
    if i: "i < length xs" for i
  proof -
    from smooth_at_spec [OF i] obtain v where v: "smooth_at xs 5 (int i) = Inr v"
      and t: "time v = spec_mean (map time (spec_window xs i))"
      and n: "spec_majority_note (map note (spec_window xs i)) = Some (note v)"
      by blast
    have "map g (map int [0..<length xs]) ! i = v"
      using i v by (simp add: g_def)
    then show ?thesis using t n by simp
  qed
  show ?thesis
  proof (intro exI [of _ "map g (map int [0..<length xs])"] conjI allI impI)
    show "smooth_pitch_data xs 5 = Inr (map g (map int [0..<length xs]))" by (rule res)
    show "length (map g (map int [0..<length xs])) = length xs" by simp
    show "time (map g (map int [0..<length xs]) ! i) = spec_mean (map time (spec_window xs i))"
      if "i < length xs" for i using props [OF that] by simp
    show "spec_majority_note (map note (spec_window xs i)) = Some (note (map g (map int [0..<length xs]) ! i))"
      if "i < length xs" for i using props [OF that] by simp
  qed
qed
theorem smooth_pitch_data_witness:
  "smooth_pitch_data
     [\<lparr>note = ''A4'', time = 0\<rparr>, \<lparr>note = ''B4'', time = 1\<rparr>, \<lparr>note = ''B4'', time = 5\<rparr>] 5
   = Inr [\<lparr>note = ''B4'', time = 2\<rparr>, \<lparr>note = ''B4'', time = 2\<rparr>, \<lparr>note = ''B4'', time = 2\<rparr>]
   \<and> spec_window [\<lparr>note = ''A4'', time = 0\<rparr>, \<lparr>note = ''B4'', time = 1\<rparr>, \<lparr>note = ''B4'', time = 5\<rparr>] 0
     = [\<lparr>note = ''A4'', time = 0\<rparr>, \<lparr>note = ''B4'', time = 1\<rparr>, \<lparr>note = ''B4'', time = 5\<rparr>]"
proof -
  have u: "[0..<3] = [0, 1, 2]" by (simp add: upt_rec)
  show ?thesis
    using smooth_pitch_data_window
      [of "[\<lparr>note = ''A4'', time = 0\<rparr>, \<lparr>note = ''B4'', time = 1\<rparr>, \<lparr>note = ''B4'', time = 5\<rparr>]"]
    by (simp add: smooth_pitch_data_def smooth_at_def py_slice_def slice_bound_def
        py_max_key_def spec_window_def u)
qed

section \<open>Duration estimation\<close>

lemma for_each_traced_Inr:
  "snd (for_each_traced f xs) = Inr ys \<Longrightarrow>
   length ys = length xs \<and> (\<forall>i<length xs. snd (f (xs ! i)) = Inr (ys ! i))"
proof (induction xs arbitrary: ys)
  case Nil
  then show ?case by simp
next
  case (Cons x xs)
  obtain r1 o1 where f: "f x = (r1, o1)" by (cases "f x")
  obtain r2 o2 where rest: "for_each_traced f xs = (r2, o2)" by (cases "for_each_traced f xs")
  from Cons.prems f rest obtain v vs where v: "o1 = Inr v" and vs: "o2 = Inr vs" and ys: "ys = v # vs"
    by (auto split: sum.splits)
  from Cons.IH [of vs] rest vs have "length vs = length xs"
    and "\<forall>i<length xs. snd (f (xs ! i)) = Inr (vs ! i)"
    by simp_all
  then show ?case
    using f v ys by (simp add: nth_Cons split: nat.split)
qed

lemma for_each_traced_ok:
  "(\<And>x. x \<in> set xs \<Longrightarrow> \<exists>v. snd (f x) = Inr v) \<Longrightarrow>
   \<exists>ys. snd (for_each_traced f xs) = Inr ys"
proof (induction xs)
  case Nil
  show ?case by simp
next
  case (Cons x xs)
  obtain r1 o1 where f: "f x = (r1, o1)" by (cases "f x")
  obtain r2 o2 where rest: "for_each_traced f xs = (r2, o2)" by (cases "for_each_traced f xs")
  from Cons.prems [of x] f obtain v where v: "o1 = Inr v" by auto
  from Cons.IH Cons.prems rest obtain vs where vs: "o2 = Inr vs" by auto
  show ?case using f rest v vs by simp
qed

lemma for_each_traced_reads:
  "k \<in> set (fst (for_each_traced f xs)) \<Longrightarrow> \<exists>x\<in>set xs. k \<in> set (fst (f x))"
proof (induction xs)
  case Nil
  then show ?case by simp
next
  case (Cons x xs)
  obtain r1 o1 where f: "f x = (r1, o1)" by (cases "f x")
  obtain r2 o2 where rest: "for_each_traced f xs = (r2, o2)" by (cases "for_each_traced f xs")
  from Cons.prems f rest have "k \<in> set r1 \<or> k \<in> set r2"
    by (auto split: sum.splits)
  then show ?case
    using Cons.IH f rest by auto
qed

lemma envelope_index_in_range:
  assumes "0 \<le> j" "j < l" "int n = (l + 511) div 512"
  shows "0 \<le> j div 512 \<and> j div 512 < int n"
proof -
  have "0 \<le> j div 512" using assms(1) by (simp add: pos_imp_zdiv_nonneg_iff)
  moreover have "j div 512 \<le> (l - 1) div 512"
    using assms(2) by (intro zdiv_mono1) simp_all
  moreover have "(l + 511) div 512 = (l - 1) div 512 + 1"
  proof -
    have "l + 511 = 512 + (l - 1)" by simp
    then show ?thesis by (metis div_add_self1 zero_neq_numeral)
  qed
  ultimately show ?thesis using assms(3) by simp
qed

lemma scan_envelope_safe:
  "0 \<le> j \<Longrightarrow> stop \<le> l \<Longrightarrow> int (length amp_env) = (l + 511) div 512 \<Longrightarrow>
   (\<exists>e. snd (scan_envelope amp_env threshold j stop) = Inr e)
   \<and> (\<forall>k\<in>set (fst (scan_envelope amp_env threshold j stop)). 0 \<le> k \<and> k < int (length amp_env))"
proof (induction amp_env threshold j stop rule: scan_envelope.induct)
  case (1 amp_env threshold j stop)
  show ?case
  proof (cases "j < stop")
    case False
    then show ?thesis by (subst (1 2) scan_envelope.simps) simp
  next
    case True
    then have "j < l" using 1(3) by simp
    then have idx: "0 \<le> j div 512 \<and> j div 512 < int (length amp_env)"
      using 1(2) 1(4) by (intro envelope_index_in_range [of j l]) simp_all
    then have get: "py_index amp_env (j div 512) = Inr (amp_env ! nat (j div 512))"
      by (simp add: py_index_def)
    show ?thesis
    proof (cases "np_less (amp_env ! nat (j div 512)) threshold")
      case below: True
      then show ?thesis
        using True get idx by (subst (1 2) scan_envelope.simps) simp
    next
      case above: False
      have "(\<exists>e. snd (scan_envelope amp_env threshold (j + 512) stop) = Inr e)
        \<and> (\<forall>k\<in>set (fst (scan_envelope amp_env threshold (j + 512) stop)). 0 \<le> k \<and> k < int (length amp_env))"
        using 1(1) [OF True get above] 1(2) 1(3) 1(4) by simp
      then show ?thesis
        using True get idx above
        by (subst (1 2) scan_envelope.simps) (auto split: prod.splits)
    qed
  qed
qed

lemma scan_envelope_immediate:
  "j < stop \<Longrightarrow> py_index amp_env (j div 512) = Inr v \<Longrightarrow> np_less v threshold \<Longrightarrow>
   scan_envelope amp_env threshold j stop = ([j div 512], Inr j)"
  by (subst scan_envelope.simps) simp

lemma note_duration_floor:
  "snd (note_duration amp_env threshold sr onset_sample stop) = Inr d \<Longrightarrow> 5 / 100 \<le> d"
  by (auto simp: note_duration_def split: prod.splits sum.splits if_splits)

lemma note_duration_immediate:
  "onset_sample < stop \<Longrightarrow> py_index amp_env (onset_sample div 512) = Inr v \<Longrightarrow>
   np_less v threshold \<Longrightarrow> snd (note_duration amp_env threshold sr onset_sample stop) = Inr d \<Longrightarrow>
   d = 5 / 100"
  by (auto simp: note_duration_def scan_envelope_immediate split: if_splits)

lemma note_duration_safe:
  assumes "0 \<le> onset_sample" "stop \<le> l" "int (length amp_env) = (l + 511) div 512"
  shows "(sr \<noteq> 0 \<longrightarrow> (\<exists>d. snd (note_duration amp_env threshold sr onset_sample stop) = Inr d))
   \<and> snd (note_duration amp_env threshold sr onset_sample stop) \<noteq> Inl IndexError
   \<and> (\<forall>k\<in>set (fst (note_duration amp_env threshold sr onset_sample stop)). 0 \<le> k \<and> k < int (length amp_env))"
proof -
  obtain reads r where s: "scan_envelope amp_env threshold onset_sample stop = (reads, r)"
    by (cases "scan_envelope amp_env threshold onset_sample stop")
  from scan_envelope_safe [OF assms, of threshold] s obtain e where
    e: "r = Inr e" and rd: "\<forall>k\<in>set reads. 0 \<le> k \<and> k < int (length amp_env)"
    by auto
  show ?thesis
    using s e rd by (simp add: note_duration_def)
qed
lemma for_each_traced_Inl:
  "snd (for_each_traced f xs) = Inl e \<Longrightarrow> \<exists>x\<in>set xs. snd (f x) = Inl e"
proof (induction xs)
  case Nil
  then show ?case by simp
next
  case (Cons x xs)
  obtain r1 o1 where f: "f x = (r1, o1)" by (cases "f x")
  obtain r2 o2 where rest: "for_each_traced f xs = (r2, o2)" by (cases "for_each_traced f xs")
  from Cons.prems f rest have "o1 = Inl e \<or> o2 = Inl e"
    by (auto split: sum.splits)
  then show ?case
    using Cons.IH f rest by auto
qed

lemma envelope_512:
  "\<exists>amp_env. calculate_amplitude_envelope y sr 512 = Inr amp_env
     \<and> int (length amp_env) = (int (length y) + 511) div 512"
proof -
  have nonneg: "0 \<le> (int (length y) + 511) div 512"
    by (simp add: pos_imp_zdiv_nonneg_iff)
  have "length (range_up 0 (int (length y)) 512) = nat ((int (length y) + 511) div 512)"
    using length_range_up [of 512 0 "int (length y)"] by simp
  then have "int (length (range_up 0 (int (length y)) 512)) = (int (length y) + 511) div 512"
    using nonneg by simp
  then show ?thesis
    by (simp add: calculate_amplitude_envelope_def py_range_def)
qed

lemma estimate_note_durations_structure:
  assumes env: "calculate_amplitude_envelope y sr 512 = Inr amp_env"
    and res: "estimate_note_durations onsets y sr threshold = Inr ds"
  shows "length ds = length onsets
    \<and> (\<forall>i. Suc i < length onsets \<longrightarrow>
          snd (note_duration amp_env threshold sr
                 (int_of_float (onsets ! i * of_int sr))
                 (int_of_float (onsets ! Suc i * of_int sr))) = Inr (ds ! i))
    \<and> (0 < length onsets \<longrightarrow>
          snd (note_duration amp_env threshold sr
                 (int_of_float (onsets ! (length onsets - 1) * of_int sr))
                 (int (length y))) = Inr (ds ! (length onsets - 1)))"
proof -
  define F where "F = (\<lambda>i. note_duration amp_env threshold sr
                          (int_of_float (onsets ! i * of_int sr))
                          (int_of_float (onsets ! (i + 1) * of_int sr)))"
  define n where "n = length onsets"
  obtain reads r where loop: "for_each_traced F [0..<n - 1] = (reads, r)"
    by (cases "for_each_traced F [0..<n - 1]")
  have unfold: "estimate_note_durations onsets y sr threshold =
      (case r of
         Inl e \<Rightarrow> Inl e
       | Inr durations \<Rightarrow>
           if 0 < n then
             (case snd (note_duration amp_env threshold sr
                          (int_of_float (last onsets * of_int sr)) (int (length y))) of
                Inl e \<Rightarrow> Inl e
              | Inr duration \<Rightarrow> Inr (durations @ [duration]))
           else Inr durations)"
    using env loop
    by (simp add: estimate_note_durations_def estimate_note_durations_traced_def F_def n_def
        split: sum.splits prod.splits)
  from res unfold obtain durations where r: "r = Inr durations"
    by (cases r) simp_all
  from for_each_traced_Inr [of F "[0..<n - 1]" durations] loop r
  have len: "length durations = n - 1"
    and each: "\<forall>i<n - 1. snd (F i) = Inr (durations ! i)"
    by simp_all
  show ?thesis
  proof (cases "0 < n")
    case False
    then have "ds = durations" using res unfold r by simp
    then show ?thesis using False len by (simp add: n_def)
  next
    case True
    then have ne: "onsets \<noteq> []" by (auto simp: n_def)
    from res unfold r True obtain duration where
      d: "snd (note_duration amp_env threshold sr
                 (int_of_float (last onsets * of_int sr)) (int (length y))) = Inr duration"
      and ds: "ds = durations @ [duration]"
      by (auto split: sum.splits)
    have l: "last onsets = onsets ! (n - 1)"
      using ne by (simp add: last_conv_nth n_def)
    have "length ds = n" using ds len True by simp
    moreover have "snd (F i) = Inr (ds ! i)" if "Suc i < n" for i
    proof -
      from that have i: "i < n - 1" by linarith
      then have "ds ! i = durations ! i" using ds len by (simp add: nth_append)
      then show ?thesis using each i by simp
    qed
    moreover have "ds ! (n - 1) = duration"
      using ds len by (simp add: nth_append)
    ultimately show ?thesis
      using d l by (simp add: F_def n_def)
  qed
qed

lemma estimate_note_durations_safe:
  assumes env: "calculate_amplitude_envelope y sr 512 = Inr amp_env"
    and bounds: "\<forall>onset\<in>set onsets. 0 \<le> int_of_float (onset * of_int sr)
                    \<and> int_of_float (onset * of_int sr) \<le> int (length y)"
  shows "(\<forall>k\<in>set (envelope_reads onsets y sr threshold). 0 \<le> k \<and> k < int (length amp_env))
    \<and> estimate_note_durations onsets y sr threshold \<noteq> Inl IndexError
    \<and> (sr \<noteq> 0 \<longrightarrow> (\<exists>ds. estimate_note_durations onsets y sr threshold = Inr ds))"
proof -
  define F where "F = (\<lambda>i. note_duration amp_env threshold sr
                          (int_of_float (onsets ! i * of_int sr))
                          (int_of_float (onsets ! (i + 1) * of_int sr)))"
  define n where "n = length onsets"
  define L where "L = note_duration amp_env threshold sr
                          (int_of_float (last onsets * of_int sr)) (int (length y))"
  from envelope_512 [of y sr] env
  have len: "int (length amp_env) = (int (length y) + 511) div 512" by auto
  have samp: "0 \<le> int_of_float (onsets ! i * of_int sr)
      \<and> int_of_float (onsets ! i * of_int sr) \<le> int (length y)" if "i < n" for i
    using that bounds by (simp add: n_def)
  have Fsafe: "(sr \<noteq> 0 \<longrightarrow> (\<exists>d. snd (F i) = Inr d)) \<and> snd (F i) \<noteq> Inl IndexError
      \<and> (\<forall>k\<in>set (fst (F i)). 0 \<le> k \<and> k < int (length amp_env))" if "i \<in> set [0..<n - 1]" for i
  proof -
    from that have "i < n" "i + 1 < n" by auto
    then show ?thesis
      unfolding F_def
      using samp [of i] samp [of "i + 1"] len
      by (intro note_duration_safe [of _ _ "int (length y)"]) simp_all
  qed
  have Lsafe: "(sr \<noteq> 0 \<longrightarrow> (\<exists>d. snd L = Inr d)) \<and> snd L \<noteq> Inl IndexError
      \<and> (\<forall>k\<in>set (fst L). 0 \<le> k \<and> k < int (length amp_env))" if "0 < n"
  proof -
    from that have "onsets \<noteq> []" by (auto simp: n_def)
    then have "last onsets \<in> set onsets" by simp
    then have "0 \<le> int_of_float (last onsets * of_int sr)" using bounds by blast
    then show ?thesis
      unfolding L_def using len
      by (intro note_duration_safe [of _ _ "int (length y)"]) simp_all
  qed
  obtain reads r where loop: "for_each_traced F [0..<n - 1] = (reads, r)"
    by (cases "for_each_traced F [0..<n - 1]")
  obtain reads' r' where last: "L = (reads', r')" by (cases L)
  have unfold: "estimate_note_durations_traced onsets y sr threshold =
      (case r of
         Inl e \<Rightarrow> (reads, Inl e)
       | Inr durations \<Rightarrow>
           if 0 < n then
             (case r' of
                Inl e \<Rightarrow> (reads @ reads', Inl e)
              | Inr duration \<Rightarrow> (reads @ reads', Inr (durations @ [duration])))
           else (reads, Inr durations))"
    using env loop last
    by (simp add: estimate_note_durations_traced_def F_def n_def L_def
        split: sum.splits prod.splits)
  have reads_ok: "\<forall>k\<in>set reads. 0 \<le> k \<and> k < int (length amp_env)"
  proof
    fix k assume "k \<in> set reads"
    then have "k \<in> set (fst (for_each_traced F [0..<n - 1]))" using loop by simp
    then obtain i where "i \<in> set [0..<n - 1]" "k \<in> set (fst (F i))"
      using for_each_traced_reads by blast
    then show "0 \<le> k \<and> k < int (length amp_env)" using Fsafe by blast
  qed
  have r_ok: "r \<noteq> Inl IndexError"
  proof
    assume "r = Inl IndexError"
    then have "snd (for_each_traced F [0..<n - 1]) = Inl IndexError" using loop by simp
    then obtain i where "i \<in> set [0..<n - 1]" "snd (F i) = Inl IndexError"
      using for_each_traced_Inl by blast
    then show False using Fsafe by blast
  qed
  have r_Inr: "\<exists>durations. r = Inr durations" if "sr \<noteq> 0"
  proof -
    have "\<exists>ys. snd (for_each_traced F [0..<n - 1]) = Inr ys"
      using Fsafe that by (intro for_each_traced_ok) blast
    then show ?thesis using loop by simp
  qed
  have c1: "\<forall>k\<in>set (envelope_reads onsets y sr threshold). 0 \<le> k \<and> k < int (length amp_env)"
    unfolding envelope_reads_def unfold
    using reads_ok Lsafe last by (auto split: sum.splits)
  have c2: "estimate_note_durations onsets y sr threshold \<noteq> Inl IndexError"
    unfolding estimate_note_durations_def unfold
    using r_ok Lsafe last by (auto split: sum.splits)
  have c3: "\<exists>ds. estimate_note_durations onsets y sr threshold = Inr ds" if "sr \<noteq> 0"
  proof -
    from r_Inr [OF that] obtain durations where d: "r = Inr durations" by blast
    show ?thesis
    proof (cases "0 < n")
      case True
      with Lsafe that last obtain duration where "r' = Inr duration" by auto
      then show ?thesis
        unfolding estimate_note_durations_def unfold using d True by simp
    next
      case False
      then show ?thesis
        unfolding estimate_note_durations_def unfold using d by simp
    qed
  qed
  show ?thesis using c1 c2 c3 by blast
qed
text \<open>
  Claim C5. Whenever \<open>estimate_note_durations\<close> returns a list, the list has exactly one
  duration per onset. Each duration but the last is the one the scan from its onset's sample
  towards the following onset's sample gives; the last is the one the scan from the last
  onset's sample towards the end of the waveform gives. No onsets give the empty list. The
  function does return a list when the sample rate is not zero and every onset's sample
  index lies between 0 and the length of the waveform.
\<close>

theorem estimate_note_durations_one_per_onset:
  "(\<forall>ds. estimate_note_durations onsets y sr threshold = Inr ds \<longrightarrow> length ds = length onsets)
   \<and> (\<forall>ds amp_env.
         estimate_note_durations onsets y sr threshold = Inr ds
         \<and> calculate_amplitude_envelope y sr 512 = Inr amp_env \<longrightarrow>
         (\<forall>i. Suc i < length onsets \<longrightarrow>
            snd (note_duration amp_env threshold sr
                   (int_of_float (onsets ! i * of_int sr))
                   (int_of_float (onsets ! Suc i * of_int sr))) = Inr (ds ! i))
         \<and> (0 < length onsets \<longrightarrow>
            snd (note_duration amp_env threshold sr
                   (int_of_float (onsets ! (length onsets - 1) * of_int sr))
                   (int (length y))) = Inr (ds ! (length onsets - 1))))
   \<and> estimate_note_durations [] y sr threshold = Inr []
   \<and> (sr \<noteq> 0
        \<and> (\<forall>onset\<in>set onsets. 0 \<le> int_of_float (onset * of_int sr)
                \<and> int_of_float (onset * of_int sr) \<le> int (length y)) \<longrightarrow>
        (\<exists>ds. estimate_note_durations onsets y sr threshold = Inr ds \<and> length ds = length onsets))"
proof -
  obtain amp_env where env: "calculate_amplitude_envelope y sr 512 = Inr amp_env"
    using envelope_512 [of y sr] by blast
  have len: "length ds = length onsets"
    if "estimate_note_durations onsets y sr threshold = Inr ds" for ds
    using estimate_note_durations_structure [OF env that] by blast
  have each: "(\<forall>i. Suc i < length onsets \<longrightarrow>
            snd (note_duration e threshold sr
                   (int_of_float (onsets ! i * of_int sr))
                   (int_of_float (onsets ! Suc i * of_int sr))) = Inr (ds ! i))
         \<and> (0 < length onsets \<longrightarrow>
            snd (note_duration e threshold sr
                   (int_of_float (onsets ! (length onsets - 1) * of_int sr))
                   (int (length y))) = Inr (ds ! (length onsets - 1)))"
    if "estimate_note_durations onsets y sr threshold = Inr ds
         \<and> calculate_amplitude_envelope y sr 512 = Inr e" for ds e
  proof -
    from that have r: "estimate_note_durations onsets y sr threshold = Inr ds"
      and e: "calculate_amplitude_envelope y sr 512 = Inr e" by simp_all
    show ?thesis using estimate_note_durations_structure [OF e r] by blast
  qed
  have empty: "estimate_note_durations [] y sr threshold = Inr []"
    using env by (simp add: estimate_note_durations_def estimate_note_durations_traced_def)
  have returns: "\<exists>ds. estimate_note_durations onsets y sr threshold = Inr ds \<and> length ds = length onsets"
    if "sr \<noteq> 0 \<and> (\<forall>onset\<in>set onsets. 0 \<le> int_of_float (onset * of_int sr)
                \<and> int_of_float (onset * of_int sr) \<le> int (length y))"
  proof -
    from that have sr: "sr \<noteq> 0" and b: "\<forall>onset\<in>set onsets. 0 \<le> int_of_float (onset * of_int sr)
                \<and> int_of_float (onset * of_int sr) \<le> int (length y)" by simp_all
    from estimate_note_durations_safe [OF env b, of threshold] sr obtain ds where
      "estimate_note_durations onsets y sr threshold = Inr ds" by blast
    then show ?thesis using len by blast
  qed
  show ?thesis
    using len each empty returns by blast
qed

theorem estimate_note_durations_one_per_onset_witness:
  "estimate_note_durations [0, 1] [1, 1, 1, 1] 2 (1 / 2) = Inr [1, 1]
   \<and> estimate_note_durations [] [1, 1, 1, 1] 2 (1 / 2) = Inr []"
proof -
  have e: "range_up 0 4 512 = [0]"
    by (simp add: range_up.simps)
  have i: "int_of_float 0 = 0" "int_of_float 2 = 2"
    by (simp_all add: int_of_float_def)
  show ?thesis
    using estimate_note_durations_one_per_onset [of "[0, 1]" "[1, 1, 1, 1]" 2 "1 / 2"]
    by (simp add: estimate_note_durations_def estimate_note_durations_traced_def
        calculate_amplitude_envelope_def py_range_def e i py_slice_def slice_bound_def rms_def
        note_duration_def scan_envelope.simps py_index_def np_less_def)
qed

text \<open>
  Claim C4. Every duration \<open>estimate_note_durations\<close> returns is at least 0.05 seconds, for
  every onset sequence, waveform, sample rate and threshold. When the scan of an onset reads
  the envelope at the onset's own sample and finds it below the threshold, so that the raw
  span is zero, the duration is exactly 0.05.
\<close>

theorem estimate_note_durations_floor:
  "\<forall>ds. estimate_note_durations onsets y sr threshold = Inr ds \<longrightarrow>
     (\<forall>d\<in>set ds. 5 / 100 \<le> d)
     \<and> (\<forall>amp_env i v.
           calculate_amplitude_envelope y sr 512 = Inr amp_env \<and> i < length onsets
           \<and> int_of_float (onsets ! i * of_int sr)
               < (if Suc i < length onsets then int_of_float (onsets ! Suc i * of_int sr)
                  else int (length y))
           \<and> py_index amp_env (int_of_float (onsets ! i * of_int sr) div 512) = Inr v
           \<and> np_less v threshold \<longrightarrow>
           ds ! i = 5 / 100)"
proof (intro allI impI)
  fix ds
  assume res: "estimate_note_durations onsets y sr threshold = Inr ds"
  obtain amp_env where env: "calculate_amplitude_envelope y sr 512 = Inr amp_env"
    using envelope_512 [of y sr] by blast
  note st = estimate_note_durations_structure [OF env res]
  have nth: "\<exists>stop. snd (note_duration amp_env threshold sr
                 (int_of_float (onsets ! i * of_int sr)) stop) = Inr (ds ! i)
            \<and> stop = (if Suc i < length onsets then int_of_float (onsets ! Suc i * of_int sr)
                  else int (length y))"
    if "i < length onsets" for i
  proof (cases "Suc i < length onsets")
    case True
    then show ?thesis using st by simp
  next
    case False
    then have "i = length onsets - 1" using that by linarith
    then show ?thesis using st that False by auto
  qed
  have floor: "\<forall>d\<in>set ds. 5 / 100 \<le> d"
  proof
    fix d assume "d \<in> set ds"
    then obtain i where i: "i < length ds" and d: "d = ds ! i"
      by (auto simp: in_set_conv_nth)
    then have "i < length onsets" using st by simp
    from nth [OF this] obtain stop where
      "snd (note_duration amp_env threshold sr (int_of_float (onsets ! i * of_int sr)) stop) = Inr (ds ! i)"
      by blast
    then show "5 / 100 \<le> d" using d note_duration_floor by blast
  qed
  have drop: "ds ! i = 5 / 100"
    if h: "calculate_amplitude_envelope y sr 512 = Inr e \<and> i < length onsets
           \<and> int_of_float (onsets ! i * of_int sr)
               < (if Suc i < length onsets then int_of_float (onsets ! Suc i * of_int sr)
                  else int (length y))
           \<and> py_index e (int_of_float (onsets ! i * of_int sr) div 512) = Inr v
           \<and> np_less v threshold" for e i v
  proof -
    from h env have e: "e = amp_env" by simp
    from h have i: "i < length onsets" by simp
    from nth [OF i] obtain stop where
      nd: "snd (note_duration amp_env threshold sr (int_of_float (onsets ! i * of_int sr)) stop) = Inr (ds ! i)"
      and stop: "stop = (if Suc i < length onsets then int_of_float (onsets ! Suc i * of_int sr)
                  else int (length y))"
      by blast
    have "int_of_float (onsets ! i * of_int sr) < stop" using h stop by simp
    moreover have "py_index amp_env (int_of_float (onsets ! i * of_int sr) div 512) = Inr v"
      using h e by simp
    moreover have "np_less v threshold" using h by simp
    ultimately show ?thesis using nd by (rule note_duration_immediate)
  qed
  show "(\<forall>d\<in>set ds. 5 / 100 \<le> d)
     \<and> (\<forall>amp_env i v.
           calculate_amplitude_envelope y sr 512 = Inr amp_env \<and> i < length onsets
           \<and> int_of_float (onsets ! i * of_int sr)
               < (if Suc i < length onsets then int_of_float (onsets ! Suc i * of_int sr)
                  else int (length y))
           \<and> py_index amp_env (int_of_float (onsets ! i * of_int sr) div 512) = Inr v
           \<and> np_less v threshold \<longrightarrow>
           ds ! i = 5 / 100)"
    using floor drop by blast
qed

theorem estimate_note_durations_floor_witness:
  "estimate_note_durations [0, 1] [1, 1, 1, 1] 2 2 = Inr [5 / 100, 5 / 100]"
proof -
  have e: "range_up 0 4 512 = [0]"
    by (simp add: range_up.simps)
  have i: "int_of_float 0 = 0" "int_of_float 2 = 2"
    by (simp_all add: int_of_float_def)
  show ?thesis
    using estimate_note_durations_floor [of "[0, 1]" "[1, 1, 1, 1]" 2 2]
    by (simp add: estimate_note_durations_def estimate_note_durations_traced_def
        calculate_amplitude_envelope_def py_range_def e i py_slice_def slice_bound_def rms_def
        note_duration_def scan_envelope.simps py_index_def np_less_def)
qed

text \<open>
  Claim C10, as stated, asks only that every onset's sample index is at most the length of
  the waveform. That is not enough: an onset time below zero has a negative sample index,
  and the read of the envelope at \<open>j // 512\<close> then falls before the start of the envelope.
  For the waveform of three samples and the ascending onsets \<open>-1.0\<close> and \<open>0.0\<close> at 44100
  Hz, the first read is at index \<open>-87\<close> of an envelope of one value, and raises IndexError.
\<close>

theorem envelope_read_out_of_range_counterexample:
  "sorted [- 1, 0 :: real]
   \<and> int_of_float (- 1 * of_int 44100) \<le> int (length [0, 0, 0 :: real])
   \<and> int_of_float (0 * of_int 44100) \<le> int (length [0, 0, 0 :: real])
   \<and> calculate_amplitude_envelope [0, 0, 0] 44100 512 = Inr [Some 0]
   \<and> envelope_reads [- 1, 0] [0, 0, 0] 44100 (25 / 1000) = [- 87]
   \<and> estimate_note_durations [- 1, 0] [0, 0, 0] 44100 (25 / 1000) = Inl IndexError"
proof -
  have e: "range_up 0 3 512 = [0]"
    by (simp add: range_up.simps)
  have i: "int_of_float (- 44100) = - 44100" "int_of_float 0 = 0"
    by (simp_all add: int_of_float_def)
  have d: "(- 44100 :: int) div 512 = - 87" by simp
  show ?thesis
    by (simp add: estimate_note_durations_def envelope_reads_def estimate_note_durations_traced_def
        calculate_amplitude_envelope_def py_range_def e i d py_slice_def slice_bound_def rms_def
        note_duration_def scan_envelope.simps py_index_def np_less_def)
qed

text \<open>
  Claim C10, amended. When every onset's sample index \<open>int(onset * sr)\<close> lies between 0 and
  the length of the waveform, every read of the envelope by \<open>estimate_note_durations\<close> is
  at an index from 0 up to, not including, the length of the envelope, which is
  \<open>ceil(len(y) / 512)\<close>; no read raises IndexError. This holds for ascending onsets and
  for any other order.
\<close>

theorem envelope_reads_in_bounds:
  assumes "\<forall>onset\<in>set onsets. 0 \<le> int_of_float (onset * of_int sr)
              \<and> int_of_float (onset * of_int sr) \<le> int (length y)"
  shows "\<exists>amp_env. calculate_amplitude_envelope y sr 512 = Inr amp_env
           \<and> int (length amp_env) = \<lceil>real (length y) / 512\<rceil>
           \<and> (\<forall>k\<in>set (envelope_reads onsets y sr threshold). 0 \<le> k \<and> k < int (length amp_env))
           \<and> estimate_note_durations onsets y sr threshold \<noteq> Inl IndexError"
proof -
  obtain amp_env where env: "calculate_amplitude_envelope y sr 512 = Inr amp_env"
    and len: "int (length amp_env) = (int (length y) + 511) div 512"
    using envelope_512 [of y sr] by blast
  have "\<lceil>real_of_int (int (length y)) / real_of_int 512\<rceil> = (int (length y) + 512 - 1) div 512"
    by (rule ceiling_div) simp
  then have "int (length amp_env) = \<lceil>real (length y) / 512\<rceil>"
    using len by simp
  then show ?thesis
    using env estimate_note_durations_safe [OF env assms, of threshold] by blast
qed

theorem envelope_reads_in_bounds_witness:
  "envelope_reads [0, 1] [1, 1, 1, 1] 2 (1 / 2) = [0, 0]
   \<and> calculate_amplitude_envelope [1, 1, 1, 1] 2 512 = Inr [Some 1]"
proof -
  have e: "range_up 0 4 512 = [0]"
    by (simp add: range_up.simps)
  have i: "int_of_float 0 = 0" "int_of_float 2 = 2"
    by (simp_all add: int_of_float_def)
  show ?thesis
    using envelope_reads_in_bounds [of "[0, 1]" 2 "[1, 1, 1, 1]" "1 / 2"]
    by (simp add: envelope_reads_def estimate_note_durations_traced_def
        calculate_amplitude_envelope_def py_range_def e i py_slice_def slice_bound_def rms_def
        note_duration_def scan_envelope.simps py_index_def np_less_def)
qed

section \<open>Rejections of the processing route\<close>

lemma error_response_status: "snd (error_response e) = 500"
  by (simp add: error_response_def)

lemma store_and_respond_status:
  "store_and_respond ext w processed_notes onsets durations tempo = (Inr response, w') \<Longrightarrow>
   snd response = 200"
  by (auto simp: store_and_respond_def split: prod.splits sum.splits option.splits if_splits)

lemma process_request_400:
  assumes "process_request ext w = (Inr response, w')" "snd response = 400"
  shows "w' = w \<and> (fst response = ErrorMessage no_notes_message
                    \<or> fst response = ErrorMessage no_timing_message)"
proof -
  from assms(1) obtain content_type where c: "request_audio ext = Some content_type"
    by (auto simp: process_request_def split: option.splits)
  show ?thesis
  proof (cases "content_type = ''audio/webm''")
    case False
    then show ?thesis using assms c by (auto simp: process_request_def)
  next
    case True
    from assms(1) c True obtain notes_data onsets durations tempo where
      a: "analyse_recording ext = Inr (notes_data, onsets, durations, tempo)"
      by (auto simp: process_request_def split: sum.splits)
    from assms(1) c True a obtain processed_notes where
      p: "process_notes notes_data = Inr processed_notes"
      by (auto simp: process_request_def split: sum.splits)
    show ?thesis
    proof (cases "processed_notes = [] \<or> onsets = [] \<or> durations = []")
      case True
      then show ?thesis
        using assms(1) c \<open>content_type = ''audio/webm''\<close> a p
        by (auto simp: process_request_def split: if_splits)
    next
      case False
      then have "store_and_respond ext w processed_notes onsets durations tempo = (Inr response, w')"
        using assms(1) c \<open>content_type = ''audio/webm''\<close> a p
        by (simp add: process_request_def)
      then have "snd response = 200" by (rule store_and_respond_status)
      then show ?thesis using assms(2) by simp
    qed
  qed
qed

text \<open>
  Claim C9. When the request carries WebM audio and the analysis of the recording ran to
  its end, an empty processed note list, an empty onset sequence or an empty duration
  sequence makes the route answer with status 400 and a message asking to record again, and
  the stored artifacts (local MIDI files, the S3 bucket, the database collection) are left
  exactly as they were. Every response of status 400 is one of these two rejections and
  leaves the artifacts unchanged. An exception anywhere in the route, and in particular a
  failure of an estimator or of the analysis, is answered with status 500, never 400.
\<close>

theorem process_data_rejects_empty_analysis:
  "(\<forall>notes_data onsets durations tempo processed_notes.
       request_audio ext = Some ''audio/webm''
       \<and> analyse_recording ext = Inr (notes_data, onsets, durations, tempo)
       \<and> process_notes notes_data = Inr processed_notes
       \<and> (processed_notes = [] \<or> onsets = [] \<or> durations = []) \<longrightarrow>
       process_data ext w =
         ((ErrorMessage (if processed_notes = [] then no_notes_message else no_timing_message), 400), w))
   \<and> (snd (fst (process_data ext w)) = 400 \<longrightarrow>
         snd (process_data ext w) = w
         \<and> (fst (fst (process_data ext w)) = ErrorMessage no_notes_message
              \<or> fst (fst (process_data ext w)) = ErrorMessage no_timing_message))
   \<and> (\<forall>e w'. process_request ext w = (Inl e, w') \<longrightarrow>
         process_data ext w = (error_response e, w') \<and> snd (fst (process_data ext w)) = 500)
   \<and> (\<forall>e. request_audio ext = Some ''audio/webm'' \<and> analyse_recording ext = Inl e \<longrightarrow>
         process_data ext w = (error_response e, w) \<and> snd (fst (process_data ext w)) = 500)"
proof (intro conjI allI impI)
  fix notes_data onsets durations tempo processed_notes
  assume "request_audio ext = Some ''audio/webm''
       \<and> analyse_recording ext = Inr (notes_data, onsets, durations, tempo)
       \<and> process_notes notes_data = Inr processed_notes
       \<and> (processed_notes = [] \<or> onsets = [] \<or> durations = [])"
  then show "process_data ext w =
         ((ErrorMessage (if processed_notes = [] then no_notes_message else no_timing_message), 400), w)"
    by (auto simp: process_data_def process_request_def)
next
  assume s: "snd (fst (process_data ext w)) = 400"
  obtain r w' where r: "process_request ext w = (r, w')" by (cases "process_request ext w")
  from s r obtain response where resp: "r = Inr response" and st: "snd response = 400"
    by (cases r) (simp_all add: process_data_def error_response_status)
  from process_request_400 [of ext w response w'] r resp st
  have "w' = w \<and> (fst response = ErrorMessage no_notes_message
                    \<or> fst response = ErrorMessage no_timing_message)"
    by simp
  then have both: "snd (process_data ext w) = w
         \<and> (fst (fst (process_data ext w)) = ErrorMessage no_notes_message
              \<or> fst (fst (process_data ext w)) = ErrorMessage no_timing_message)"
    using r resp by (simp add: process_data_def)
  from both show "snd (process_data ext w) = w" by simp
  from both show "fst (fst (process_data ext w)) = ErrorMessage no_notes_message
              \<or> fst (fst (process_data ext w)) = ErrorMessage no_timing_message" by simp
next
  fix e w'
  assume r: "process_request ext w = (Inl e, w')"
  then show "process_data ext w = (error_response e, w')"
    by (simp add: process_data_def)
  from r show "snd (fst (process_data ext w)) = 500"
    by (simp add: process_data_def error_response_status)
next
  fix e
  assume a: "request_audio ext = Some ''audio/webm'' \<and> analyse_recording ext = Inl e"
  then show "process_data ext w = (error_response e, w)"
    by (simp add: process_data_def process_request_def)
  from a show "snd (fst (process_data ext w)) = 500"
    by (simp add: process_data_def process_request_def error_response_status)
qed
theorem process_data_rejects_empty_analysis_witness:
  "process_data quiet_externals empty_world = ((ErrorMessage no_notes_message, 400), empty_world)
   \<and> process_data
         (quiet_externals\<lparr>sf_read := Inr ([0], 44100),
                           crepe_predict := (\<lambda>chunk sr. Inr [(0, 440, 9 / 10)])\<rparr>)
         empty_world
       = ((ErrorMessage no_timing_message, 400), empty_world)
   \<and> process_data (quiet_externals\<lparr>onset_detect := Inl ExternalError\<rparr>) empty_world
       = ((UnexpectedErrorOf ExternalError, 500), empty_world)"
proof -
  define voiced where
    "voiced = quiet_externals\<lparr>sf_read := Inr ([0], 44100),
                               crepe_predict := (\<lambda>chunk sr. Inr [(0, 440, 9 / 10)])\<rparr>"
  have no_durations: "estimate_note_durations [] [] 44100 t = Inr []" for t
    by (simp add: estimate_note_durations_def estimate_note_durations_traced_def
        calculate_amplitude_envelope_def py_range_def range_up.simps)
  have quiet: "analyse_recording quiet_externals = Inr ([], [], [], 0)"
    by (simp add: analyse_recording_def quiet_externals_def bind_err_def raise_if_def
        convert_webm_to_wav_def process_audio_chunks_def range_up.simps no_durations)
  have quiet_notes: "process_notes ([] :: raw_note list) = Inr []"
    by (simp add: process_notes_def smooth_pitch_data_def filter_and_combine_notes_def)
  have a4: "frequency_to_note_name 440 = Inr (Some ''A4'')"
    by (simp add: frequency_to_note_name_def hz_to_note_number_def int_of_float_def
        note_number_to_name_69)
  have r: "py_round2 (9 / 10) = 9 / 10"
    by (simp add: py_round2_def round_half_even_def)
  have chunks: "process_audio_chunks (\<lambda>chunk sr. Inr [(0, 440, 9 / 10)]) [0] 44100
      = Inr [\<lparr>note = ''A4'', time = 0, confidence = 9 / 10\<rparr>]"
    by (simp add: process_audio_chunks_def range_up.simps a4 r)
  have voiced_analysis: "analyse_recording voiced
      = Inr ([\<lparr>note = ''A4'', time = 0, confidence = 9 / 10\<rparr>], [], [], 0)"
    by (simp add: analyse_recording_def voiced_def quiet_externals_def bind_err_def raise_if_def
        convert_webm_to_wav_def chunks no_durations)
  have u: "[0..<1] = [0]" by (simp add: upt_rec)
  have voiced_notes: "process_notes [\<lparr>note = ''A4'', time = 0, confidence = 9 / 10\<rparr>]
      = Inr [\<lparr>note = ''A4''\<rparr>]"
    by (simp add: process_notes_def smooth_pitch_data_def smooth_at_def py_slice_def
        slice_bound_def py_max_key_def filter_and_combine_notes_def u)
  have req: "request_audio quiet_externals = Some ''audio/webm''"
    "request_audio voiced = Some ''audio/webm''"
    "request_audio (quiet_externals\<lparr>onset_detect := Inl ExternalError\<rparr>) = Some ''audio/webm''"
    by (simp_all add: quiet_externals_def voiced_def)
  have failed: "analyse_recording (quiet_externals\<lparr>onset_detect := Inl ExternalError\<rparr>)
      = Inl ExternalError"
    by (simp add: analyse_recording_def quiet_externals_def bind_err_def raise_if_def
        convert_webm_to_wav_def process_audio_chunks_def range_up.simps)
  have e: "error_response ExternalError = (UnexpectedErrorOf ExternalError, 500)"
    by (simp add: error_response_def)
  show ?thesis
    unfolding voiced_def [symmetric]
    using process_data_rejects_empty_analysis [of quiet_externals empty_world]
      process_data_rejects_empty_analysis [of voiced empty_world]
      process_data_rejects_empty_analysis
        [of "quiet_externals\<lparr>onset_detect := Inl ExternalError\<rparr>" empty_world]
      quiet quiet_notes voiced_analysis voiced_notes req failed e
    by simp
qed

end
